theory Spec2Isabelle
  imports Main "HOL-Library.Multiset"
begin

section \<open>The flow backup store of the Node-RED MCP server\<close>

text \<open>
  The development embeds the backup tools of the server (\<^verbatim>\<open>createBackupName\<close>,
  \<^verbatim>\<open>analyzeFlows\<close>, \<^verbatim>\<open>ensureBackupDirectory\<close>, \<^verbatim>\<open>createBackup\<close>,
  \<^verbatim>\<open>getBackupFlows\<close>, \<^verbatim>\<open>listBackups\<close>, \<^verbatim>\<open>checkBackupHealth\<close>) and proves
  the properties the specification states about them.

  Conventions of the embedding:
  \<^item> a JavaScript string is a list of UTF-16 code units; a \<^typ>\<open>char\<close> stands for one
    code unit in the range U+0000 to U+00FF, so that \<^const>\<open>length\<close> is the
    \<^verbatim>\<open>.length\<close> of the source;
  \<^item> a number is an integer, or one of the three numbers that \<^verbatim>\<open>JSON.stringify\<close>
    writes as it writes another value: \<^verbatim>\<open>-0\<close>, \<^verbatim>\<open>Infinity\<close> and \<^verbatim>\<open>-Infinity\<close>.
    An integer stands for the double of that value and is meant below \<^verbatim>\<open>1e21\<close> in
    magnitude, where the number is written with its plain digits; fractions are left
    out;
  \<^item> a file of the backup directory is kept as the document \<^verbatim>\<open>JSON.parse\<close> reads from
    it, or as text that does not decode. A change of the text of a file that leaves
    the document as it was (white space, another escape of a character) is therefore
    no change of the directory;
  \<^item> an instant is the number of milliseconds since the epoch, and \<open>toISOString\<close>
    gives its text;
  \<^item> a thrown \<^verbatim>\<open>Error\<close> is the left summand of the result.
\<close>

subsection \<open>JSON values and \<^verbatim>\<open>JSON.stringify\<close>\<close>

text \<open>
  The numbers of a document that \<^verbatim>\<open>JSON.parse\<close> has read: \<^verbatim>\<open>-0\<close> is what the literal
  \<^verbatim>\<open>-0\<close> gives, and the infinities are what a literal beyond the range of the doubles
  gives, such as \<^verbatim>\<open>1e999\<close> and \<^verbatim>\<open>-1e999\<close>.
\<close>

datatype number = Integer int | NegZero | Infinity | NegInfinity

datatype json =
    JNull
  | JBool bool
  | JNum number
  | JStr string
  | JArr "json list"
  | JObj "(string \<times> json) list"

definition digit :: "nat \<Rightarrow> char" where
  "digit n = ''0123456789'' ! (n mod 10)"

fun show_nat :: "nat \<Rightarrow> string" where
  "show_nat n = (if n < 10 then [digit n] else show_nat (n div 10) @ [digit n])"

declare show_nat.simps [simp del]

definition show_int :: "int \<Rightarrow> string" where
  "show_int i = (if i < 0 then CHR ''-'' # show_nat (nat (- i)) else show_nat (nat i))"

text \<open>
  A number in \<^verbatim>\<open>JSON.stringify\<close>: a finite number is written by \<^verbatim>\<open>Number::toString\<close>,
  which gives \<^verbatim>\<open>0\<close> for \<^verbatim>\<open>-0\<close>; a number that is not finite is written \<^verbatim>\<open>null\<close>.
\<close>

fun show_number :: "number \<Rightarrow> string" where
  "show_number (Integer n) = show_int n"
| "show_number NegZero = ''0''"
| "show_number Infinity = ''null''"
| "show_number NegInfinity = ''null''"

definition hexdigit :: "nat \<Rightarrow> char" where
  "hexdigit n = ''0123456789abcdef'' ! (n mod 16)"

text \<open>
  \<^verbatim>\<open>QuoteJSONString\<close>: the quotation mark and the reverse solidus are escaped, the
  control characters below U+0020 get their short escape or \<^verbatim>\<open>\u00XX\<close>, every other
  code unit is copied.
\<close>

definition quote_char :: "char \<Rightarrow> string" where
  "quote_char c =
     (if c = CHR 0x22 then [CHR 0x5C, CHR 0x22]
      else if c = CHR 0x5C then [CHR 0x5C, CHR 0x5C]
      else if c = CHR 0x08 then [CHR 0x5C, CHR ''b'']
      else if c = CHR 0x0C then [CHR 0x5C, CHR ''f'']
      else if c = CHR 0x0A then [CHR 0x5C, CHR ''n'']
      else if c = CHR 0x0D then [CHR 0x5C, CHR ''r'']
      else if c = CHR 0x09 then [CHR 0x5C, CHR ''t'']
      else if (of_char c :: nat) < 32
        then [CHR 0x5C, CHR ''u'', CHR ''0'', CHR ''0'',
              hexdigit (of_char c div 16), hexdigit (of_char c)]
      else [c])"

definition quote :: "string \<Rightarrow> string" where
  "quote s = CHR 0x22 # concat (map quote_char s) @ [CHR 0x22]"

text \<open>
  \<^verbatim>\<open>JSON.stringify(value)\<close> with no indentation: members and elements are separated
  by a comma alone, in the order the object and the array hold them.
\<close>

fun stringify :: "json \<Rightarrow> string"
  and stringify_elems :: "json list \<Rightarrow> string"
  and stringify_props :: "(string \<times> json) list \<Rightarrow> string" where
  "stringify JNull = ''null''"
| "stringify (JBool b) = (if b then ''true'' else ''false'')"
| "stringify (JNum x) = show_number x"
| "stringify (JStr s) = quote s"
| "stringify (JArr xs) = CHR ''['' # stringify_elems xs @ '']''"
| "stringify (JObj ps) = CHR ''{'' # stringify_props ps @ ''}''"
| "stringify_elems [] = []"
| "stringify_elems [x] = stringify x"
| "stringify_elems (x # y # xs) = stringify x @ CHR '','' # stringify_elems (y # xs)"
| "stringify_props [] = []"
| "stringify_props [(k, v)] = quote k @ CHR '':'' # stringify v"
| "stringify_props ((k, v) # q # ps) =
     quote k @ CHR '':'' # stringify v @ CHR '','' # stringify_props (q # ps)"

text \<open>
  The document \<^verbatim>\<open>JSON.parse\<close> reads from the text \<^verbatim>\<open>JSON.stringify\<close> has written, with
  or without indentation: \<^verbatim>\<open>-0\<close> comes back as \<^verbatim>\<open>0\<close> and the infinities as \<^verbatim>\<open>null\<close>,
  every other value as it was.
\<close>

fun reparse :: "json \<Rightarrow> json"
  and reparse_elems :: "json list \<Rightarrow> json list"
  and reparse_props :: "(string \<times> json) list \<Rightarrow> (string \<times> json) list" where
  "reparse JNull = JNull"
| "reparse (JBool b) = JBool b"
| "reparse (JNum (Integer n)) = JNum (Integer n)"
| "reparse (JNum NegZero) = JNum (Integer 0)"
| "reparse (JNum Infinity) = JNull"
| "reparse (JNum NegInfinity) = JNull"
| "reparse (JStr s) = JStr s"
| "reparse (JArr xs) = JArr (reparse_elems xs)"
| "reparse (JObj ps) = JObj (reparse_props ps)"
| "reparse_elems [] = []"
| "reparse_elems (x # xs) = reparse x # reparse_elems xs"
| "reparse_props [] = []"
| "reparse_props ((k, v) # ps) = (k, reparse v) # reparse_props ps"

text \<open>The number of bytes of a string in UTF-8: one byte below U+0080, two up to U+00FF.\<close>

definition utf8_length :: "string \<Rightarrow> nat" where
  "utf8_length s = length s + length (filter (\<lambda>c. 128 \<le> (of_char c :: nat)) s)"

subsection \<open>Instants and \<^verbatim>\<open>Date.prototype.toISOString\<close>\<close>

definition msPerDay :: int where
  "msPerDay = 86400000"

text \<open>The civil date (year, month, day) of a day number counted from 1970-01-01.\<close>

definition civil_from_days :: "int \<Rightarrow> int \<times> int \<times> int" where
  "civil_from_days days =
     (let z = days + 719468;
          era = z div 146097;
          doe = z mod 146097;
          yoe = (doe - doe div 1460 + doe div 36524 - doe div 146096) div 365;
          doy = doe - (365 * yoe + yoe div 4 - yoe div 100);
          mp = (5 * doy + 2) div 153;
          d = doy - (153 * mp + 2) div 5 + 1;
          m = (if mp < 10 then mp + 3 else mp - 9);
          y = yoe + era * 400
      in (if m \<le> 2 then y + 1 else y, m, d))"

definition yearFromTime :: "int \<Rightarrow> int" where
  "yearFromTime t = fst (civil_from_days (t div msPerDay))"

fun pad :: "nat \<Rightarrow> nat \<Rightarrow> string" where
  "pad 0 n = []"
| "pad (Suc k) n = pad k (n div 10) @ [digit n]"

text \<open>
  Years 0 to 9999 are written with four digits; the others with a sign and six digits,
  as ECMAScript's expanded years.
\<close>

definition yearString :: "int \<Rightarrow> string" where
  "yearString y =
     (if 0 \<le> y \<and> y \<le> 9999 then pad 4 (nat y)
      else (if y < 0 then CHR ''-'' else CHR ''+'') # pad 6 (nat \<bar>y\<bar>))"

definition toISOString :: "int \<Rightarrow> string" where
  "toISOString t =
     (case civil_from_days (t div msPerDay) of (y, m, d) \<Rightarrow>
        let r = t mod msPerDay in
        yearString y @ CHR ''-'' # pad 2 (nat m) @ CHR ''-'' # pad 2 (nat d) @
        CHR ''T'' # pad 2 (nat (r div 3600000)) @ CHR '':'' # pad 2 (nat (r div 60000 mod 60)) @
        CHR '':'' # pad 2 (nat (r div 1000 mod 60)) @ CHR ''.'' # pad 3 (nat (r mod 1000)) @
        ''Z'')"

subsection \<open>Errors\<close>

datatype name_fault = BadPattern | Reserved

datatype corruption = ChecksumMismatch | Undecodable

text \<open>
  The failures of the store. \<open>TypeError\<close> is the JavaScript exception of a property
  read on \<^verbatim>\<open>null\<close>; \<open>IOFailure\<close> carries the message of the flow source.
\<close>

datatype error =
    InvalidName name_fault
  | DuplicateName string
  | NotFound string
  | Corrupted corruption
  | InvalidPayload
  | IOFailure string
  | TypeError

subsection \<open>Backup names: \<^verbatim>\<open>createBackupName\<close>\<close>

definition nameChar :: "char \<Rightarrow> bool" where
  "nameChar c =
     (let n = of_char c :: nat
      in (97 \<le> n \<and> n \<le> 122) \<or> (65 \<le> n \<and> n \<le> 90) \<or> (48 \<le> n \<and> n \<le> 57)
         \<or> c = CHR ''_'' \<or> c = CHR ''-'')"

text \<open>The test of \<^verbatim>\<open>/^[a-zA-Z0-9_\-]{1,50}$/\<close>.\<close>

definition matchesNamePattern :: "string \<Rightarrow> bool" where
  "matchesNamePattern s = (1 \<le> length s \<and> length s \<le> 50 \<and> list_all nameChar s)"

text \<open>
  \<^verbatim>\<open>String.prototype.toLowerCase\<close> on the code units of the embedding: the letters A to Z
  and the capital letters of U+00C0 to U+00DE (the multiplication sign apart) move up
  by 32.
\<close>

definition toLowerCase_char :: "char \<Rightarrow> char" where
  "toLowerCase_char c =
     (let n = of_char c :: nat
      in if 65 \<le> n \<and> n \<le> 90 then char_of (n + 32)
         else if 192 \<le> n \<and> n \<le> 222 \<and> n \<noteq> 215 then char_of (n + 32)
         else c)"

definition toLowerCase :: "string \<Rightarrow> string" where
  "toLowerCase s = map toLowerCase_char s"

definition reservedNames :: "string list" where
  "reservedNames = [''latest'', ''current'', ''temp'', ''backup'']"

text \<open>\<^verbatim>\<open>s.replace("T", "_")\<close> replaces the first occurrence only.\<close>

fun replaceFirst :: "char \<Rightarrow> char \<Rightarrow> string \<Rightarrow> string" where
  "replaceFirst a b [] = []"
| "replaceFirst a b (c # cs) = (if c = a then b # cs else c # replaceFirst a b cs)"

definition generatedName :: "string \<Rightarrow> string" where
  "generatedName timestamp =
     ''backup_'' @
     take 15 (replaceFirst CHR ''T'' CHR ''_'' (filter (\<lambda>c. c \<notin> set ''-:.'') timestamp))"

text \<open>
  The parameter \<open>name\<close> is \<open>None\<close> for \<^verbatim>\<open>undefined\<close>. The test \<^verbatim>\<open>if (name)\<close> holds
  for a string that is not empty.
\<close>

definition createBackupName :: "string option \<Rightarrow> string \<Rightarrow> error + string" where
  "createBackupName name timestamp =
     (case name of
        None \<Rightarrow> Inr (generatedName timestamp)
      | Some n \<Rightarrow>
          if n = [] then Inr (generatedName timestamp)
          else if \<not> matchesNamePattern n then Inl (InvalidName BadPattern)
          else if toLowerCase n \<in> set reservedNames then Inl (InvalidName Reserved)
          else Inr n)"

subsection \<open>Documents of the backup directory\<close>

text \<open>
  The result of \<^verbatim>\<open>analyzeFlows\<close>, the metadata of a backup (the analysis and the
  name, timestamp and reason) and the entry of the index (the metadata and the file
  name) extend one another, as the object spreads of the source do.
\<close>

record analysis =
  checksum :: string
  flowsCount :: nat
  nodesCount :: nat
  size' :: nat

record metadata = analysis +
  name :: string
  timestamp :: int
  reason :: string

record entry = metadata +
  filename :: string

record index_config =
  maxBackups :: int
  autoCleanup :: bool

text \<open>The document of \<^verbatim>\<open>backup_metadata.json\<close>.\<close>

record index_doc =
  version :: string
  config :: index_config
  backups :: "entry list"

text \<open>The document of a backup file, \<^verbatim>\<open>{ metadata, flows }\<close>.\<close>

record backup_data =
  metadata :: metadata
  flows :: json

text \<open>
  What a file holds: an index document, a backup document, or text that
  \<^verbatim>\<open>JSON.parse\<close> rejects. Reading a document of the other shape fails as well.
\<close>

datatype disk_file =
    IndexFile index_doc
  | BackupFile backup_data
  | Garbage string

text \<open>
  The backup directory: whether it exists, and its files by name.
\<close>

record fsys =
  dirExists :: bool
  files :: "string \<rightharpoonup> disk_file"

text \<open>
  What the embedding takes from the platform: the SHA-256 digest in hexadecimal
  (\<^verbatim>\<open>crypto.createHash("sha256").update(s).digest("hex")\<close>) and the size in bytes
  that \<^verbatim>\<open>fs.stat\<close> reports for a file.
\<close>

record platform =
  sha256hex :: "string \<Rightarrow> string"
  statSize :: "disk_file \<Rightarrow> nat"

text \<open>
  The configuration of the server: \<^verbatim>\<open>config.backup?.maxBackups\<close> and
  \<^verbatim>\<open>config.backup?.autoCleanup\<close> (\<open>None\<close> for \<^verbatim>\<open>undefined\<close>, and for the \<^verbatim>\<open>NaN\<close> of
  a number that did not parse), and the backup directory \<^verbatim>\<open>getPaths\<close> resolves.
\<close>

record config =
  cfg_maxBackups :: "int option"
  cfg_autoCleanup :: "bool option"
  backupDir :: string

definition metadataFile :: string where
  "metadataFile = ''backup_metadata.json''"

definition DEFAULT_maxBackups :: int where
  "DEFAULT_maxBackups = 10"

definition DEFAULT_autoCleanup :: bool where
  "DEFAULT_autoCleanup = True"

subsection \<open>File operations\<close>

definition lookup :: "fsys \<Rightarrow> string \<Rightarrow> disk_file option" where
  "lookup fs p = (if dirExists fs then files fs p else None)"

text \<open>\<^verbatim>\<open>fs.mkdir(backupDir, { recursive: true })\<close>: a directory that exists is left alone.\<close>

definition mkdir :: "fsys \<Rightarrow> fsys" where
  "mkdir fs = (if dirExists fs then fs else \<lparr>dirExists = True, files = Map.empty\<rparr>)"

text \<open>
  \<^verbatim>\<open>fs.writeFile\<close>. Every write of the source follows \<^verbatim>\<open>ensureBackupDirectory\<close>, so the
  directory exists.
\<close>

definition writeFile :: "fsys \<Rightarrow> string \<Rightarrow> disk_file \<Rightarrow> fsys" where
  "writeFile fs p f = fs\<lparr>files := (files fs)(p \<mapsto> f)\<rparr>"

text \<open>\<^verbatim>\<open>fs.unlink\<close> fails on a file that is not there.\<close>

definition unlink :: "fsys \<Rightarrow> string \<Rightarrow> error + fsys" where
  "unlink fs p =
     (case lookup fs p of
        None \<Rightarrow> Inl (IOFailure ''ENOENT'')
      | Some f \<Rightarrow> Inr (fs\<lparr>files := (files fs)(p := None)\<rparr>))"

text \<open>\<^verbatim>\<open>JSON.parse(await fs.readFile(metadataPath, "utf8"))\<close>, read as the index.\<close>

definition readIndex :: "fsys \<Rightarrow> error + index_doc" where
  "readIndex fs =
     (case lookup fs metadataFile of
        None \<Rightarrow> Inl (IOFailure ''ENOENT'')
      | Some (IndexFile d) \<Rightarrow> Inr d
      | Some (BackupFile b) \<Rightarrow> Inl (Corrupted Undecodable)
      | Some (Garbage t) \<Rightarrow> Inl (Corrupted Undecodable))"

subsection \<open>\<^verbatim>\<open>ensureBackupDirectory\<close>\<close>

text \<open>
  \<^verbatim>\<open>config.backup?.maxBackups || DEFAULTS.maxBackups\<close> takes the default for
  \<^verbatim>\<open>undefined\<close>, \<^verbatim>\<open>NaN\<close> and 0; \<^verbatim>\<open>config.backup?.autoCleanup ?? DEFAULTS.autoCleanup\<close>
  for \<^verbatim>\<open>undefined\<close> only.
\<close>

definition initialMetadata :: "config \<Rightarrow> index_doc" where
  "initialMetadata cfg =
     \<lparr>version = ''1.0'',
      config =
        \<lparr>maxBackups =
           (case cfg_maxBackups cfg of
              None \<Rightarrow> DEFAULT_maxBackups
            | Some n \<Rightarrow> if n = 0 then DEFAULT_maxBackups else n),
         autoCleanup =
           (case cfg_autoCleanup cfg of None \<Rightarrow> DEFAULT_autoCleanup | Some b \<Rightarrow> b)\<rparr>,
      backups = []\<rparr>"

definition ensureBackupDirectory :: "config \<Rightarrow> fsys \<Rightarrow> fsys" where
  "ensureBackupDirectory cfg fs =
     (let fs1 = mkdir fs
      in case lookup fs1 metadataFile of
           Some f \<Rightarrow> fs1
         | None \<Rightarrow> writeFile fs1 metadataFile (IndexFile (initialMetadata cfg)))"

subsection \<open>\<^verbatim>\<open>analyzeFlows\<close>\<close>

text \<open>
  The property read \<^verbatim>\<open>f.type\<close>: the member of an object (\<open>None\<close> for \<^verbatim>\<open>undefined\<close>),
  \<^verbatim>\<open>undefined\<close> on a boolean, a number, a string or an array, a \<open>TypeError\<close> on
  \<^verbatim>\<open>null\<close>. The keys of a JavaScript object are distinct.
\<close>

fun get_type :: "json \<Rightarrow> error + json option" where
  "get_type JNull = Inl TypeError"
| "get_type (JObj ps) = Inr (map_of ps ''type'')"
| "get_type v = Inr None"

text \<open>The truth value JavaScript gives a value in a condition.\<close>

fun truthy :: "json option \<Rightarrow> bool" where
  "truthy None = False"
| "truthy (Some JNull) = False"
| "truthy (Some (JBool b)) = b"
| "truthy (Some (JNum (Integer n))) = (n \<noteq> 0)"
| "truthy (Some (JNum NegZero)) = False"
| "truthy (Some (JNum Infinity)) = True"
| "truthy (Some (JNum NegInfinity)) = True"
| "truthy (Some (JStr s)) = (s \<noteq> [])"
| "truthy (Some (JArr xs)) = True"
| "truthy (Some (JObj ps)) = True"

text \<open>\<^verbatim>\<open>(f) => f.type === "tab"\<close>\<close>

definition isTab :: "json \<Rightarrow> error + bool" where
  "isTab f =
     (case get_type f of Inl e \<Rightarrow> Inl e | Inr t \<Rightarrow> Inr (t = Some (JStr ''tab'')))"

text \<open>\<^verbatim>\<open>(f) => f.type && f.type !== "tab" && f.type !== "subflow"\<close>\<close>

definition isNode :: "json \<Rightarrow> error + bool" where
  "isNode f =
     (case get_type f of
        Inl e \<Rightarrow> Inl e
      | Inr t \<Rightarrow> Inr (truthy t \<and> t \<noteq> Some (JStr ''tab'') \<and> t \<noteq> Some (JStr ''subflow'')))"

text \<open>\<^verbatim>\<open>Array.prototype.filter\<close> with a callback that may throw.\<close>

fun filter_js :: "('a \<Rightarrow> error + bool) \<Rightarrow> 'a list \<Rightarrow> error + 'a list" where
  "filter_js p [] = Inr []"
| "filter_js p (x # xs) =
     (case p x of
        Inl e \<Rightarrow> Inl e
      | Inr b \<Rightarrow>
          (case filter_js p xs of
             Inl e \<Rightarrow> Inl e
           | Inr ys \<Rightarrow> Inr (if b then x # ys else ys)))"

definition checksumOf :: "platform \<Rightarrow> json \<Rightarrow> string" where
  "checksumOf pf v = sha256hex pf (stringify v)"

definition analyzeFlows :: "platform \<Rightarrow> json \<Rightarrow> error + analysis" where
  "analyzeFlows pf fl =
     (case fl of
        JArr xs \<Rightarrow>
          (case filter_js isTab xs of
             Inl e \<Rightarrow> Inl e
           | Inr tabs \<Rightarrow>
               (case filter_js isNode xs of
                  Inl e \<Rightarrow> Inl e
                | Inr nodes \<Rightarrow>
                    Inr \<lparr>checksum = checksumOf pf fl,
                         flowsCount = length tabs,
                         nodesCount = length nodes,
                         size' = length (stringify fl)\<rparr>))
      | JNull \<Rightarrow> Inl InvalidPayload
      | JBool b \<Rightarrow> Inl InvalidPayload
      | JNum n \<Rightarrow> Inl InvalidPayload
      | JStr s \<Rightarrow> Inl InvalidPayload
      | JObj ps \<Rightarrow> Inl InvalidPayload)"

subsection \<open>Sorting and slicing the entries\<close>

text \<open>
  \<^verbatim>\<open>backups.sort((a, b) => new Date(b.timestamp) - new Date(a.timestamp))\<close>: the newest
  first; \<^verbatim>\<open>Array.prototype.sort\<close> is stable.
\<close>

definition sortBackups :: "entry list \<Rightarrow> entry list" where
  "sortBackups bs = sort_key (\<lambda>b. - timestamp b) bs"

text \<open>
  \<^verbatim>\<open>Array.prototype.slice\<close>: a negative bound counts from the end, and every bound is
  clamped to the array.
\<close>

definition relIndex :: "nat \<Rightarrow> int \<Rightarrow> nat" where
  "relIndex len k = (if k < 0 then nat (int len + k) else min (nat k) len)"

definition slice :: "'a list \<Rightarrow> int \<Rightarrow> int \<Rightarrow> 'a list" where
  "slice xs s e =
     (let from = relIndex (length xs) s; to = relIndex (length xs) e
      in take (to - from) (drop from xs))"

definition sliceFrom :: "'a list \<Rightarrow> int \<Rightarrow> 'a list" where
  "sliceFrom xs s = drop (relIndex (length xs) s) xs"

subsection \<open>\<^verbatim>\<open>createBackup\<close>\<close>

text \<open>
  The loop \<^verbatim>\<open>for (const backup of toDelete) { try { await fs.unlink(...) } catch {} }\<close>:
  a deletion that fails leaves the directory as it is and the loop goes on.
\<close>

fun unlinkAll :: "fsys \<Rightarrow> string list \<Rightarrow> fsys" where
  "unlinkAll fs [] = fs"
| "unlinkAll fs (p # ps) =
     unlinkAll (case unlink fs p of Inl e \<Rightarrow> fs | Inr fs' \<Rightarrow> fs') ps"

text \<open>\<^verbatim>\<open>reason || "Manual backup"\<close>\<close>

definition reasonOrDefault :: "string option \<Rightarrow> string" where
  "reasonOrDefault r =
     (case r of None \<Rightarrow> ''Manual backup'' | Some t \<Rightarrow> if t = [] then ''Manual backup'' else t)"

definition backupFileName :: "string \<Rightarrow> string" where
  "backupFileName n = n @ ''.json''"

definition newMetadata :: "string \<Rightarrow> int \<Rightarrow> string option \<Rightarrow> analysis \<Rightarrow> metadata" where
  "newMetadata backupName now r an =
     \<lparr>checksum = checksum an, flowsCount = flowsCount an, nodesCount = nodesCount an,
      size' = size' an, name = backupName, timestamp = now, reason = reasonOrDefault r\<rparr>"

text \<open>\<^verbatim>\<open>{ ...backupData.metadata, filename: `${backupName}.json` }\<close>\<close>

definition entryOf :: "metadata \<Rightarrow> entry" where
  "entryOf m =
     \<lparr>checksum = checksum m, flowsCount = flowsCount m, nodesCount = nodesCount m,
      size' = size' m, name = name m, timestamp = timestamp m, reason = reason m,
      filename = backupFileName (name m)\<rparr>"

text \<open>
  The cleanup of \<^verbatim>\<open>createBackup\<close>, from the entries after the push: the entries that
  stay, and the directory after the deletions.
\<close>

definition autoCleanupStep :: "index_config \<Rightarrow> entry list \<Rightarrow> fsys \<Rightarrow> entry list \<times> fsys" where
  "autoCleanupStep c pushed fs =
     (if autoCleanup c \<and> int (length pushed) > maxBackups c
      then
        (let sortedBackups = sortBackups pushed;
             toDelete = sliceFrom sortedBackups (maxBackups c)
         in (slice sortedBackups 0 (maxBackups c), unlinkAll fs (map filename toDelete)))
      else (pushed, fs))"

text \<open>
  \<open>fetched\<close> is what \<^verbatim>\<open>callNodeRed("get", "/flows", null, config)\<close> gives, \<open>now\<close> the
  instant of \<^verbatim>\<open>new Date()\<close>. The result comes with the directory the call leaves. The
  backup file is written as \<^verbatim>\<open>JSON.stringify(backupData, null, 2)\<close>, so the document
  that is read from it has the payload as \<open>reparse\<close> gives it.
\<close>

definition createBackup ::
  "platform \<Rightarrow> config \<Rightarrow> error + json \<Rightarrow> int \<Rightarrow> string option \<Rightarrow> string option \<Rightarrow> fsys
     \<Rightarrow> (error + metadata) \<times> fsys" where
  "createBackup pf cfg fetched now nm r fs0 =
     (let fs = ensureBackupDirectory cfg fs0 in
      case fetched of
        Inl e \<Rightarrow> (Inl e, fs)
      | Inr fl \<Rightarrow>
     (case createBackupName nm (toISOString now) of
        Inl e \<Rightarrow> (Inl e, fs)
      | Inr backupName \<Rightarrow>
     (case analyzeFlows pf fl of
        Inl e \<Rightarrow> (Inl e, fs)
      | Inr an \<Rightarrow>
     (case readIndex fs of
        Inl e \<Rightarrow> (Inl e, fs)
      | Inr md \<Rightarrow>
          if list_ex (\<lambda>b. name b = backupName) (backups md)
          then (Inl (DuplicateName backupName), fs)
          else
            (let m = newMetadata backupName now r an;
                 fs1 = writeFile fs (backupFileName backupName)
                         (BackupFile \<lparr>metadata = m, flows = reparse fl\<rparr>);
                 pushed = backups md @ [entryOf m]
             in case autoCleanupStep (config md) pushed fs1 of
                  (kept, fs2) \<Rightarrow>
                    (Inr m, writeFile fs2 metadataFile (IndexFile (md\<lparr>backups := kept\<rparr>))))))))"

subsection \<open>\<^verbatim>\<open>getBackupFlows\<close>\<close>

definition getBackupFlows ::
  "platform \<Rightarrow> config \<Rightarrow> string \<Rightarrow> fsys \<Rightarrow> (error + backup_data) \<times> fsys" where
  "getBackupFlows pf cfg backupName fs0 =
     (let fs = ensureBackupDirectory cfg fs0 in
      case lookup fs (backupFileName backupName) of
        None \<Rightarrow> (Inl (NotFound backupName), fs)
      | Some (BackupFile d) \<Rightarrow>
          if checksumOf pf (flows d) \<noteq> checksum (metadata d)
          then (Inl (Corrupted ChecksumMismatch), fs)
          else (Inr d, fs)
      | Some (IndexFile i) \<Rightarrow> (Inl (Corrupted Undecodable), fs)
      | Some (Garbage t) \<Rightarrow> (Inl (Corrupted Undecodable), fs))"

subsection \<open>\<^verbatim>\<open>listBackups\<close>\<close>

text \<open>
  An element of the list \<^verbatim>\<open>listBackups\<close> returns. The counts and the size are members
  of the object only when \<open>detailed\<close> holds: \<open>None\<close> is a member that is left out.
\<close>

record backup_view =
  view_name :: string
  view_timestamp :: int
  view_reason :: string
  isLatest :: bool
  view_flowsCount :: "nat option"
  view_nodesCount :: "nat option"
  view_size :: "nat option"

text \<open>\<open>detailed\<close> is \<open>None\<close> for \<^verbatim>\<open>undefined\<close>, which spreads nothing, as \<^verbatim>\<open>false\<close> does.\<close>

definition viewOf :: "bool option \<Rightarrow> nat \<Rightarrow> entry \<Rightarrow> backup_view" where
  "viewOf detailed i b =
     \<lparr>view_name = name b, view_timestamp = timestamp b, view_reason = reason b,
      isLatest = (i = 0),
      view_flowsCount = (if detailed = Some True then Some (flowsCount b) else None),
      view_nodesCount = (if detailed = Some True then Some (nodesCount b) else None),
      view_size = (if detailed = Some True then Some (size' b) else None)\<rparr>"

definition listBackups ::
  "bool option \<Rightarrow> config \<Rightarrow> fsys \<Rightarrow> (error + backup_view list) \<times> fsys" where
  "listBackups detailed cfg fs0 =
     (let fs = ensureBackupDirectory cfg fs0 in
      case readIndex fs of
        Inl e \<Rightarrow> (Inl e, fs)
      | Inr md \<Rightarrow>
          (let sortedBackups = sortBackups (backups md)
           in (Inr (map (\<lambda>(i, b). viewOf detailed i b) (enumerate 0 sortedBackups)), fs)))"

subsection \<open>\<^verbatim>\<open>checkBackupHealth\<close>\<close>

record health =
  healthy :: bool
  count' :: nat
  totalSize :: nat
  latestAge :: "int option"
  location :: string
  issues :: "string list"

definition noBackupsIssue :: string where
  "noBackupsIssue = ''No backups found. Create your first backup immediately''"

definition corruptedIssue :: "nat \<Rightarrow> string" where
  "corruptedIssue n = ''Found '' @ show_nat n @ '' corrupted backup(s)''"

definition staleIssue :: string where
  "staleIssue = ''Latest backup is over 24 hours old. Consider creating a new backup''"

definition limitIssue :: "nat \<Rightarrow> int \<Rightarrow> string" where
  "limitIssue n m =
     ''Backup count approaching limit ('' @ show_nat n @ ''/'' @ show_int m @ '')''"

definition sizeIssue :: string where
  "sizeIssue = ''Backup files are using significant disk space. Consider cleanup''"

definition initFailedIssue :: string where
  "initFailedIssue = ''Backup system initialization failed, check path permissions''"

text \<open>
  One round of the loop over the entries, on the pair of \<^verbatim>\<open>health.totalSize\<close> and
  \<^verbatim>\<open>corruptedCount\<close>: the size is added as soon as \<^verbatim>\<open>fs.stat\<close> succeeded; a file that is
  missing, does not decode or has another checksum than the entry counts as corrupted.
\<close>

definition checkEntry :: "platform \<Rightarrow> fsys \<Rightarrow> entry \<Rightarrow> nat \<times> nat \<Rightarrow> nat \<times> nat" where
  "checkEntry pf fs b acc =
     (case acc of (tot, corrupted) \<Rightarrow>
        (case lookup fs (filename b) of
           None \<Rightarrow> (tot, corrupted + 1)
         | Some f \<Rightarrow>
             (case f of
                BackupFile d \<Rightarrow>
                  if checksumOf pf (flows d) \<noteq> checksum b
                  then (tot + statSize pf f, corrupted + 1)
                  else (tot + statSize pf f, corrupted)
              | IndexFile i \<Rightarrow> (tot + statSize pf f, corrupted + 1)
              | Garbage t \<Rightarrow> (tot + statSize pf f, corrupted + 1))))"

text \<open>
  \<^verbatim>\<open>Math.round((Date.now() - new Date(latestBackup.timestamp).getTime()) / (1000 * 60))\<close>:
  the age in minutes, halves rounded up.
\<close>

definition ageMinutes :: "int \<Rightarrow> int \<Rightarrow> int" where
  "ageMinutes now t = (now - t + 30000) div 60000"

text \<open>
  The issues after the loop, in the order of the source. The test
  \<^verbatim>\<open>health.count >= metadata.config.maxBackups * 0.9\<close> is taken over the integers.
\<close>

definition healthIssues :: "nat \<Rightarrow> int option \<Rightarrow> nat \<Rightarrow> int \<Rightarrow> nat \<Rightarrow> string list" where
  "healthIssues corrupted age cnt maxB tot =
     (if corrupted > 0 then [corruptedIssue corrupted] else []) @
     (if (case age of None \<Rightarrow> False | Some a \<Rightarrow> a \<noteq> 0 \<and> a > 24) then [staleIssue] else []) @
     (if 10 * int cnt \<ge> 9 * maxB then [limitIssue cnt maxB] else []) @
     (if tot > 100 * 1024 * 1024 then [sizeIssue] else [])"

definition checkBackupHealth :: "platform \<Rightarrow> config \<Rightarrow> int \<Rightarrow> fsys \<Rightarrow> health \<times> fsys" where
  "checkBackupHealth pf cfg now fs0 =
     (let fs = ensureBackupDirectory cfg fs0;
          h0 = \<lparr>healthy = True, count' = 0, totalSize = 0, latestAge = None,
                location = backupDir cfg, issues = []\<rparr>
      in case readIndex fs of
           Inl e \<Rightarrow> (h0\<lparr>healthy := False, issues := [initFailedIssue]\<rparr>, fs)
         | Inr md \<Rightarrow>
             (let cnt = length (backups md) in
              if cnt = 0
              then (h0\<lparr>healthy := False, issues := [noBackupsIssue]\<rparr>, fs)
              else
                (case fold (checkEntry pf fs) (backups md) (0, 0) of
                   (tot, corrupted) \<Rightarrow>
                     (let age = (case sortBackups (backups md) of
                                   [] \<Rightarrow> None
                                 | latestBackup # rest \<Rightarrow>
                                     Some (ageMinutes now (timestamp latestBackup)))
                      in (\<lparr>healthy = (corrupted = 0), count' = cnt, totalSize = tot,
                           latestAge = age, location = backupDir cfg,
                           issues =
                             healthIssues corrupted age cnt (maxBackups (config md)) tot\<rparr>,
                          fs)))))"

subsection \<open>Notions used in the statements\<close>

text \<open>A decimal digit.\<close>

definition isDigit :: "char \<Rightarrow> bool" where
  "isDigit c = (48 \<le> (of_char c :: nat) \<and> (of_char c :: nat) \<le> 57)"

text \<open>
  The counting rule in the words of the specification: the \<open>type\<close> member of an element
  (only a record has members), the elements whose type equals the tab discriminator, and
  the elements whose type is present and differs from the tab and subflow discriminators.
\<close>

definition typeField :: "json \<Rightarrow> json option" where
  "typeField f = (case f of JObj ps \<Rightarrow> map_of ps ''type'' | _ \<Rightarrow> None)"

definition spec_flowsCount :: "json list \<Rightarrow> nat" where
  "spec_flowsCount xs = length (filter (\<lambda>f. typeField f = Some (JStr ''tab'')) xs)"

definition spec_nodesCount :: "json list \<Rightarrow> nat" where
  "spec_nodesCount xs =
     length (filter (\<lambda>f. typeField f \<noteq> None \<and> typeField f \<noteq> Some (JStr ''tab'')
                          \<and> typeField f \<noteq> Some (JStr ''subflow'')) xs)"

text \<open>The elements the filter of \<^verbatim>\<open>analyzeFlows\<close> counts as nodes.\<close>

definition truthyNode :: "json \<Rightarrow> bool" where
  "truthyNode f =
     (truthy (typeField f) \<and> typeField f \<noteq> Some (JStr ''tab'')
      \<and> typeField f \<noteq> Some (JStr ''subflow''))"

definition isAscii :: "string \<Rightarrow> bool" where
  "isAscii s = list_all (\<lambda>c. (of_char c :: nat) < 128) s"

text \<open>The views of a list of entries, numbered from \<open>k\<close>.\<close>

definition views :: "bool option \<Rightarrow> nat \<Rightarrow> entry list \<Rightarrow> backup_view list" where
  "views d k xs = map (\<lambda>(i, b). viewOf d i b) (enumerate k xs)"

text \<open>
  Notions for the proof that the serialization determines a value up to \<open>reparse\<close>:
  the characters of a number, a rest that does not continue a number, the kind of text
  a value is written as and the kind the first character of a serialization stands
  for, and a value whose serialization can only be read as that of a value with the
  same \<open>reparse\<close>.
\<close>

definition numChar :: "char \<Rightarrow> bool" where
  "numChar c = (c \<in> set ''-0123456789'')"

definition delim :: "string \<Rightarrow> bool" where
  "delim r = (case r of [] \<Rightarrow> True | c # cs \<Rightarrow> \<not> numChar c)"

fun tag :: "json \<Rightarrow> nat" where
  "tag JNull = 0"
| "tag (JBool b) = 1"
| "tag (JNum (Integer n)) = 2"
| "tag (JNum NegZero) = 2"
| "tag (JNum Infinity) = 0"
| "tag (JNum NegInfinity) = 0"
| "tag (JStr s) = 3"
| "tag (JArr xs) = 4"
| "tag (JObj ps) = 5"

definition tagOfChar :: "char \<Rightarrow> nat" where
  "tagOfChar c =
     (if c = CHR ''n'' then 0 else if c = CHR ''t'' \<or> c = CHR ''f'' then 1
      else if numChar c then 2 else if c = CHR 0x22 then 3 else if c = CHR ''['' then 4
      else if c = CHR ''{'' then 5 else 6)"

definition unambiguous :: "json \<Rightarrow> bool" where
  "unambiguous v =
     (\<forall>w r s. stringify v @ r = stringify w @ s \<longrightarrow> delim r \<longrightarrow> delim s
        \<longrightarrow> reparse v = reparse w \<and> r = s)"

subsection \<open>Examples\<close>

text \<open>
  A platform to run the operations on examples: the digest is the identity, which has
  no collisions, and every file has the size of 100 bytes.
\<close>

definition examplePlatform :: platform where
  "examplePlatform = \<lparr>sha256hex = (\<lambda>s. s), statSize = (\<lambda>f. 100)\<rparr>"

definition exampleConfig :: config where
  "exampleConfig =
     \<lparr>cfg_maxBackups = Some 3, cfg_autoCleanup = Some True,
      backupDir = ''/data/.mcp-backups''\<rparr>"

text \<open>The state before the first use: there is no backup directory.\<close>

definition noDirectory :: fsys where
  "noDirectory = \<lparr>dirExists = False, files = Map.empty\<rparr>"

text \<open>A payload of one tab and one node, and the archive that holds one backup of it.\<close>

definition tabElems :: "json list" where
  "tabElems =
     [JObj [(''id'', JStr ''f1''), (''type'', JStr ''tab''), (''label'', JStr ''Flow 1'')],
      JObj [(''id'', JStr ''n1''), (''type'', JStr ''inject''), (''z'', JStr ''f1'')]]"

definition tabFlows :: json where
  "tabFlows = JArr tabElems"

definition dailyMetadata :: metadata where
  "dailyMetadata =
     \<lparr>checksum = checksumOf examplePlatform tabFlows, flowsCount = 1, nodesCount = 1,
      size' = length (stringify tabFlows), name = ''daily'', timestamp = 1793704332123,
      reason = ''Manual backup''\<rparr>"

definition dailyIndex :: index_doc where
  "dailyIndex =
     \<lparr>version = ''1.0'', config = \<lparr>maxBackups = 3, autoCleanup = True\<rparr>,
      backups = [entryOf dailyMetadata]\<rparr>"

definition dailyArchive :: fsys where
  "dailyArchive =
     \<lparr>dirExists = True,
      files = [''daily.json'' \<mapsto> BackupFile \<lparr>metadata = dailyMetadata, flows = tabFlows\<rparr>,
               metadataFile \<mapsto> IndexFile dailyIndex]\<rparr>"

text \<open>An index with two entries of the same instant.\<close>

definition tiedArchive :: fsys where
  "tiedArchive =
     \<lparr>dirExists = True,
      files = [metadataFile \<mapsto> IndexFile
                 \<lparr>version = ''1.0'', config = \<lparr>maxBackups = 3, autoCleanup = True\<rparr>,
                  backups = [entryOf dailyMetadata,
                             entryOf (dailyMetadata\<lparr>name := ''second''\<rparr>)]\<rparr>]\<rparr>"

text \<open>
  An archive at its capacity of three entries, whose backup files are gone: only the
  index is in the directory.
\<close>

definition entryAt :: "string \<Rightarrow> int \<Rightarrow> entry" where
  "entryAt n t = entryOf (dailyMetadata\<lparr>name := n, timestamp := t\<rparr>)"

definition fullIndex :: index_doc where
  "fullIndex =
     \<lparr>version = ''1.0'', config = \<lparr>maxBackups = 3, autoCleanup = True\<rparr>,
      backups = [entryAt ''a'' 1000, entryAt ''b'' 3000, entryAt ''c'' 2000]\<rparr>"

definition fullArchive :: fsys where
  "fullArchive = \<lparr>dirExists = True, files = [metadataFile \<mapsto> IndexFile fullIndex]\<rparr>"

text \<open>
  The archive of the example after its backup file was altered: the payload lost its
  node, the metadata in the file and the index are as before.
\<close>

definition tamperedArchive :: fsys where
  "tamperedArchive =
     \<lparr>dirExists = True,
      files = [''daily.json'' \<mapsto> BackupFile \<lparr>metadata = dailyMetadata,
                                               flows = JArr [hd tabElems]\<rparr>,
               metadataFile \<mapsto> IndexFile dailyIndex]\<rparr>"

text \<open>
  A payload of one node with a number and a \<^verbatim>\<open>null\<close>, and the archive of its backup
  with the payload \<open>fl\<close> in the backup file: the metadata in the file and the index
  are those of the backup of \<open>timerFlows\<close>. In \<open>negZeroFlows\<close> the \<^verbatim>\<open>0\<close> of the file
  was overwritten with \<^verbatim>\<open>-0\<close>, in \<open>overflowFlows\<close> the \<^verbatim>\<open>null\<close> with \<^verbatim>\<open>1e999\<close>.
\<close>

definition timerNode :: "json \<Rightarrow> json \<Rightarrow> json" where
  "timerNode rep topic =
     JObj [(''id'', JStr ''n1''), (''type'', JStr ''inject''), (''repeat'', rep),
           (''topic'', topic)]"

definition timerFlows :: json where
  "timerFlows = JArr [timerNode (JNum (Integer 0)) JNull]"

definition negZeroFlows :: json where
  "negZeroFlows = JArr [timerNode (JNum NegZero) JNull]"

definition overflowFlows :: json where
  "overflowFlows = JArr [timerNode (JNum (Integer 0)) (JNum Infinity)]"

definition timerMetadata :: metadata where
  "timerMetadata =
     \<lparr>checksum = checksumOf examplePlatform timerFlows, flowsCount = 0, nodesCount = 1,
      size' = length (stringify timerFlows), name = ''timer'', timestamp = 1793704332123,
      reason = ''Manual backup''\<rparr>"

definition timerIndex :: index_doc where
  "timerIndex =
     \<lparr>version = ''1.0'', config = \<lparr>maxBackups = 3, autoCleanup = True\<rparr>,
      backups = [entryOf timerMetadata]\<rparr>"

definition timerArchive :: "json \<Rightarrow> fsys" where
  "timerArchive fl =
     \<lparr>dirExists = True,
      files = [''timer.json'' \<mapsto> BackupFile \<lparr>metadata = timerMetadata, flows = fl\<rparr>,
               metadataFile \<mapsto> IndexFile timerIndex]\<rparr>"

section \<open>Properties\<close>

subsection \<open>Generated names\<close>

lemma pad2: "pad 2 n = [digit (n div 10), digit n]"
  by (simp add: numeral_2_eq_2)

lemma pad4: "pad 4 n = [digit (n div 10 div 10 div 10), digit (n div 10 div 10), digit (n div 10), digit n]"
proof -
  have "pad (Suc (Suc (Suc (Suc 0)))) n =
    [digit (n div 10 div 10 div 10), digit (n div 10 div 10), digit (n div 10), digit n]"
    by simp
  moreover have "Suc (Suc (Suc (Suc 0))) = 4" by simp
  ultimately show ?thesis by (simp only:)
qed

lemma isDigit_neqs:
  assumes "isDigit c"
  shows "c \<noteq> CHR ''-''" "c \<noteq> CHR '':''" "c \<noteq> CHR ''.''" "c \<noteq> CHR ''T''"
  using assms by (auto simp: isDigit_def)

lemma generatedName_iso:
  assumes "isDigit a" "isDigit b" "isDigit c" "isDigit d" "isDigit e" "isDigit f" "isDigit g"
    "isDigit h" "isDigit i" "isDigit j" "isDigit k" "isDigit l" "isDigit m" "isDigit n"
  shows "generatedName (a # b # c # d # CHR ''-'' # e # f # CHR ''-'' # g # h # CHR ''T'' # i # j # CHR '':'' #
            k # l # CHR '':'' # m # n # CHR ''.'' # rest) =
         ''backup_'' @ [a, b, c, d, e, f, g, h] @ ''_'' @ [i, j, k, l, m, n]"
proof -
  note neqs = assms [THEN isDigit_neqs(1)] assms [THEN isDigit_neqs(2)]
    assms [THEN isDigit_neqs(3)] assms [THEN isDigit_neqs(4)]
  show ?thesis
    unfolding generatedName_def using neqs by simp
qed

lemma digit_cases: "digit n \<in> set ''0123456789''"
proof -
  have "n mod 10 < length ''0123456789''" by simp
  then show ?thesis unfolding digit_def by (rule nth_mem)
qed

lemma isDigit_digit: "isDigit (digit n)"
  using digit_cases [of n] by (auto simp: isDigit_def)

lemma isDigit_nameChar: "isDigit c \<Longrightarrow> nameChar c"
  by (simp add: isDigit_def nameChar_def)

lemma toISOString_form:
  assumes "0 \<le> yearFromTime t" "yearFromTime t \<le> 9999"
    and civ: "civil_from_days (t div msPerDay) = (y, mo, da)"
  shows "toISOString t =
      digit (nat y div 10 div 10 div 10) # digit (nat y div 10 div 10) # digit (nat y div 10) #
      digit (nat y) # CHR ''-'' # digit (nat mo div 10) # digit (nat mo) # CHR ''-'' #
      digit (nat da div 10) # digit (nat da) # CHR ''T'' #
      digit (nat (t mod msPerDay div 3600000) div 10) # digit (nat (t mod msPerDay div 3600000)) #
      CHR '':'' # digit (nat (t mod msPerDay div 60000 mod 60) div 10) #
      digit (nat (t mod msPerDay div 60000 mod 60)) # CHR '':'' #
      digit (nat (t mod msPerDay div 1000 mod 60) div 10) #
      digit (nat (t mod msPerDay div 1000 mod 60)) # CHR ''.'' #
      (pad 3 (nat (t mod msPerDay mod 1000)) @ ''Z'')"
proof -
  from assms have yr: "0 \<le> y \<and> y \<le> 9999"
    by (simp add: yearFromTime_def)
  show ?thesis
    by (simp add: toISOString_def civ yr yearString_def pad2 pad4 Let_def)
qed

lemmas generatedName_digits =
  generatedName_iso [OF isDigit_digit isDigit_digit isDigit_digit isDigit_digit isDigit_digit
    isDigit_digit isDigit_digit isDigit_digit isDigit_digit isDigit_digit isDigit_digit
    isDigit_digit isDigit_digit isDigit_digit]

text \<open>
  Claim C10, as amended. For every creation instant whose year lies between 0 and 9999, so that
  \<open>toISOString\<close> writes the year with four digits, the name generated when no name is
  supplied is \<^verbatim>\<open>backup_\<close> followed by the eight digits of the date, an underscore and
  the six digits of the time of day, taken from the ISO text. That name matches the
  pattern of names and is no reserved word, so it would pass the validation of a
  supplied name. \<open>createBackupName\<close> returns the generated name of any timestamp text
  \<open>ts\<close> without checking it.
\<close>

theorem generated_name_valid:
  assumes "0 \<le> yearFromTime t" and "yearFromTime t \<le> 9999"
  shows "createBackupName None ts = Inr (generatedName ts)
    \<and> createBackupName None (toISOString t) =
        Inr (''backup_'' @ take 4 (toISOString t) @ take 2 (drop 5 (toISOString t)) @
             take 2 (drop 8 (toISOString t)) @ ''_'' @ take 2 (drop 11 (toISOString t)) @
             take 2 (drop 14 (toISOString t)) @ take 2 (drop 17 (toISOString t)))
    \<and> list_all isDigit (take 4 (toISOString t) @ take 2 (drop 5 (toISOString t)) @
             take 2 (drop 8 (toISOString t)) @ take 2 (drop 11 (toISOString t)) @
             take 2 (drop 14 (toISOString t)) @ take 2 (drop 17 (toISOString t)))
    \<and> matchesNamePattern (generatedName (toISOString t))
    \<and> toLowerCase (generatedName (toISOString t)) \<notin> set reservedNames
    \<and> createBackupName (Some (generatedName (toISOString t))) ts =
        Inr (generatedName (toISOString t))"
proof -
  obtain y mo da where civ: "civil_from_days (t div msPerDay) = (y, mo, da)"
    by (cases "civil_from_days (t div msPerDay)") auto
  note iso = toISOString_form [OF assms civ]
  have c1: "createBackupName None ts = Inr (generatedName ts)" for ts
    by (simp add: createBackupName_def)
  have gen: "generatedName (toISOString t) =
      ''backup_'' @ take 4 (toISOString t) @ take 2 (drop 5 (toISOString t)) @
             take 2 (drop 8 (toISOString t)) @ ''_'' @ take 2 (drop 11 (toISOString t)) @
             take 2 (drop 14 (toISOString t)) @ take 2 (drop 17 (toISOString t))"
    unfolding iso generatedName_digits by simp
  have c2: "createBackupName None (toISOString t) =
        Inr (''backup_'' @ take 4 (toISOString t) @ take 2 (drop 5 (toISOString t)) @
             take 2 (drop 8 (toISOString t)) @ ''_'' @ take 2 (drop 11 (toISOString t)) @
             take 2 (drop 14 (toISOString t)) @ take 2 (drop 17 (toISOString t)))"
    using gen by (simp only: c1)
  have c3: "list_all isDigit (take 4 (toISOString t) @ take 2 (drop 5 (toISOString t)) @
             take 2 (drop 8 (toISOString t)) @ take 2 (drop 11 (toISOString t)) @
             take 2 (drop 14 (toISOString t)) @ take 2 (drop 17 (toISOString t)))"
    unfolding iso by (simp add: isDigit_digit)
  have nc: "nameChar CHR ''b''" "nameChar CHR ''a''" "nameChar CHR ''c''" "nameChar CHR ''k''"
    "nameChar CHR ''u''" "nameChar CHR ''p''" "nameChar CHR ''_''"
    by (simp_all add: nameChar_def)
  have c5: "matchesNamePattern (generatedName (toISOString t))"
    unfolding iso generatedName_digits
    by (simp add: matchesNamePattern_def nc isDigit_digit [THEN isDigit_nameChar])
  have len: "length (generatedName (toISOString t)) = 22"
    unfolding iso generatedName_digits by simp
  have c6: "toLowerCase (generatedName (toISOString t)) \<notin> set reservedNames"
  proof
    assume "toLowerCase (generatedName (toISOString t)) \<in> set reservedNames"
    then have "length (toLowerCase (generatedName (toISOString t))) \<le> 7"
      by (auto simp: reservedNames_def)
    then show False
      by (simp add: toLowerCase_def len)
  qed
  have ne: "generatedName (toISOString t) \<noteq> []"
    using len by auto
  have c7: "createBackupName (Some (generatedName (toISOString t))) ts =
        Inr (generatedName (toISOString t))"
    using c5 c6 ne by (simp add: createBackupName_def)
  from c1 [of ts] c2 c3 c5 c6 c7 show ?thesis by (intro conjI)
qed

lemma year_example: "yearFromTime 1793704332123 = 2026"
  by code_simp

lemma iso_example: "toISOString 1793704332123 = ''2026-11-03T11:12:12.123Z''"
  by code_simp

theorem generated_name_valid_witness:
  "0 \<le> yearFromTime 1793704332123 \<and> yearFromTime 1793704332123 \<le> 9999
   \<and> createBackupName None (toISOString 1793704332123) = Inr ''backup_20261103_111212''"
proof -
  have y: "0 \<le> yearFromTime 1793704332123" "yearFromTime 1793704332123 \<le> 9999"
    by (simp_all add: year_example)
  from generated_name_valid [OF y, of "[]"]
  have "createBackupName None (toISOString 1793704332123) =
        Inr (''backup_'' @ take 4 (toISOString 1793704332123) @
             take 2 (drop 5 (toISOString 1793704332123)) @
             take 2 (drop 8 (toISOString 1793704332123)) @ ''_'' @
             take 2 (drop 11 (toISOString 1793704332123)) @
             take 2 (drop 14 (toISOString 1793704332123)) @
             take 2 (drop 17 (toISOString 1793704332123)))"
    by (elim conjE)
  then show ?thesis
    using y unfolding iso_example by simp
qed

subsection \<open>The backup directory and its first use\<close>

lemma lookup_mkdir: "lookup (mkdir fs) p = lookup fs p"
  by (simp add: lookup_def mkdir_def)

lemma dirExists_mkdir: "dirExists (mkdir fs)"
  by (simp add: mkdir_def)

lemma dirExists_ensure: "dirExists (ensureBackupDirectory cfg fs)"
  by (simp add: ensureBackupDirectory_def Let_def writeFile_def dirExists_mkdir
      split: option.splits)

lemma lookup_ensure:
  "lookup (ensureBackupDirectory cfg fs) p =
     (if p = metadataFile \<and> lookup fs metadataFile = None
      then Some (IndexFile (initialMetadata cfg)) else lookup fs p)"
  by (auto simp: ensureBackupDirectory_def Let_def lookup_mkdir writeFile_def lookup_def
      dirExists_mkdir mkdir_def split: option.splits)

lemma ensure_idem:
  "ensureBackupDirectory cfg' (ensureBackupDirectory cfg fs) = ensureBackupDirectory cfg fs"
proof -
  have "lookup (ensureBackupDirectory cfg fs) metadataFile \<noteq> None"
    by (simp add: lookup_ensure)
  moreover have "mkdir (ensureBackupDirectory cfg fs) = ensureBackupDirectory cfg fs"
    using dirExists_ensure [of cfg fs] by (simp add: mkdir_def)
  ultimately show ?thesis
    by (auto simp: ensureBackupDirectory_def [of cfg'] Let_def split: option.splits)
qed

lemma ensure_present:
  assumes "lookup fs metadataFile = Some f"
  shows "ensureBackupDirectory cfg fs = fs"
proof -
  from assms have "dirExists fs" by (simp add: lookup_def split: if_splits)
  then have "mkdir fs = fs" by (simp add: mkdir_def)
  with assms show ?thesis by (simp add: ensureBackupDirectory_def)
qed

subsection \<open>Supplied names\<close>

text \<open>
  Claim C7, as amended. A supplied name that is not empty is rejected with
  \<open>InvalidName\<close> when it does not match the pattern of names, and when its lower-case
  form is a reserved word; a name that matches and is not reserved is accepted as it is.
  When the name is rejected, and the flows were fetched, \<open>createBackup\<close> fails with
  that error and leaves the directory as \<open>ensureBackupDirectory\<close> made it: no file but
  the index is written, and the index only when it was absent, with no entry.
\<close>

theorem supplied_name_validation:
  assumes "n \<noteq> []"
  shows "(\<not> matchesNamePattern n \<longrightarrow> createBackupName (Some n) ts = Inl (InvalidName BadPattern))
    \<and> (toLowerCase n \<in> set reservedNames \<longrightarrow>
         createBackupName (Some n) ts = Inl (InvalidName BadPattern)
         \<or> createBackupName (Some n) ts = Inl (InvalidName Reserved))
    \<and> (matchesNamePattern n \<and> toLowerCase n \<notin> set reservedNames \<longrightarrow>
         createBackupName (Some n) ts = Inr n)
    \<and> (createBackupName (Some n) (toISOString now) = Inl e \<longrightarrow>
         createBackup pf cfg (Inr fl) now (Some n) r fs = (Inl e, ensureBackupDirectory cfg fs)
         \<and> (\<forall>p. lookup (ensureBackupDirectory cfg fs) p =
               (if p = metadataFile \<and> lookup fs metadataFile = None
                then Some (IndexFile (initialMetadata cfg)) else lookup fs p))
         \<and> backups (initialMetadata cfg) = [])"
  using assms
  by (auto simp: createBackupName_def createBackup_def Let_def lookup_ensure initialMetadata_def)

theorem supplied_name_validation_witness:
  "''Latest'' \<noteq> [] \<and> toLowerCase ''Latest'' \<in> set reservedNames
   \<and> createBackupName (Some ''Latest'') (toISOString 1793704332123) = Inl (InvalidName Reserved)
   \<and> \<not> matchesNamePattern ''my backup''
   \<and> createBackupName (Some ''my backup'') (toISOString 1793704332123) = Inl (InvalidName BadPattern)
   \<and> createBackup examplePlatform exampleConfig (Inr (JArr [])) 1793704332123 (Some ''Latest'')
        None noDirectory
      = (Inl (InvalidName Reserved), ensureBackupDirectory exampleConfig noDirectory)"
proof -
  have low: "toLowerCase ''Latest'' = ''latest''"
    by code_simp
  have pat: "matchesNamePattern ''Latest''" "\<not> matchesNamePattern ''my backup''"
    by (simp_all add: matchesNamePattern_def nameChar_def)
  have res: "''latest'' \<in> set reservedNames"
    by (simp add: reservedNames_def)
  have nm: "createBackupName (Some ''Latest'') ts = Inl (InvalidName Reserved)" for ts
    by (simp add: createBackupName_def low pat res)
  from supplied_name_validation [of "''Latest''" "toISOString 1793704332123" 1793704332123
      "InvalidName Reserved" examplePlatform exampleConfig "JArr []" None noDirectory]
    supplied_name_validation [of "''my backup''" "toISOString 1793704332123"]
  show ?thesis
    by (simp add: low pat res nm)
qed

subsection \<open>The analysis of a payload\<close>

lemma get_type_typeField: "f \<noteq> JNull \<Longrightarrow> get_type f = Inr (typeField f)"
  by (cases f) (simp_all add: typeField_def)

lemma filter_js_total:
  "(\<And>x. x \<in> set xs \<Longrightarrow> p x = Inr (q x)) \<Longrightarrow> filter_js p xs = Inr (filter q xs)"
  by (induction xs) simp_all

lemma utf8_length_ascii: "isAscii s \<Longrightarrow> utf8_length s = length s"
  by (induction s) (simp_all add: utf8_length_def isAscii_def)

lemma analyzeFlows_array:
  assumes "JNull \<notin> set xs"
  shows "analyzeFlows pf (JArr xs) =
     Inr \<lparr>checksum = checksumOf pf (JArr xs),
          flowsCount = spec_flowsCount xs,
          nodesCount = length (filter truthyNode xs),
          size' = length (stringify (JArr xs))\<rparr>"
proof -
  have nn: "x \<noteq> JNull" if "x \<in> set xs" for x
    using assms that by auto
  have tabs: "filter_js isTab xs = Inr (filter (\<lambda>f. typeField f = Some (JStr ''tab'')) xs)"
    by (rule filter_js_total) (simp add: isTab_def get_type_typeField nn)
  have nodes: "filter_js isNode xs = Inr (filter truthyNode xs)"
    by (rule filter_js_total) (simp add: isNode_def get_type_typeField nn truthyNode_def)
  show ?thesis
    by (simp add: analyzeFlows_def tabs nodes spec_flowsCount_def)
qed

lemma analyzeFlows_not_array:
  "\<forall>ys. fl \<noteq> JArr ys \<Longrightarrow> analyzeFlows pf fl = Inl InvalidPayload"
  by (cases fl) (simp_all add: analyzeFlows_def)

lemma truthy_present: "truthy t \<Longrightarrow> t \<noteq> None"
  by (cases t) simp_all

lemma truthy_nodes_spec:
  assumes "list_all (\<lambda>f. typeField f = None \<or> truthy (typeField f)) xs"
  shows "length (filter truthyNode xs) = spec_nodesCount xs"
proof -
  have "filter truthyNode xs =
      filter (\<lambda>f. typeField f \<noteq> None \<and> typeField f \<noteq> Some (JStr ''tab'')
                          \<and> typeField f \<noteq> Some (JStr ''subflow'')) xs"
    using assms
    by (intro filter_cong refl) (auto simp: truthyNode_def list_all_iff dest: truthy_present)
  then show ?thesis by (simp add: spec_nodesCount_def)
qed

text \<open>
  Claim C5, as amended. For every payload that is a sequence of elements none of which
  is \<^verbatim>\<open>null\<close>, \<open>analyzeFlows\<close> returns: as \<open>flowsCount\<close> the number of elements whose
  type equals the tab discriminator; as \<open>nodesCount\<close> the number of elements whose type is
  truthy and differs from the tab and subflow discriminators, which is the number of
  elements whose type is present and differs from both when every type that is present
  is truthy; as \<open>size\<close> the length of the canonical serialization, which is its number of
  bytes when the serialization is ASCII. For every payload that is not a sequence it
  fails with \<open>InvalidPayload\<close>.
\<close>

theorem analyzeFlows_counts:
  assumes "JNull \<notin> set xs"
  shows "analyzeFlows pf (JArr xs) =
       Inr \<lparr>checksum = checksumOf pf (JArr xs),
            flowsCount = spec_flowsCount xs,
            nodesCount = length (filter truthyNode xs),
            size' = length (stringify (JArr xs))\<rparr>
    \<and> (list_all (\<lambda>f. typeField f = None \<or> truthy (typeField f)) xs
         \<longrightarrow> length (filter truthyNode xs) = spec_nodesCount xs)
    \<and> (isAscii (stringify (JArr xs))
         \<longrightarrow> length (stringify (JArr xs)) = utf8_length (stringify (JArr xs)))
    \<and> ((\<forall>ys. fl \<noteq> JArr ys) \<longrightarrow> analyzeFlows pf fl = Inl InvalidPayload)"
  using analyzeFlows_array [OF assms] truthy_nodes_spec [of xs] utf8_length_ascii
    analyzeFlows_not_array [of fl pf]
  by auto

theorem analyzeFlows_counts_witness:
  "JNull \<notin> set [JObj [(''type'', JStr ''tab'')], JObj [(''type'', JStr ''inject'')]]
   \<and> map_sum id flowsCount
        (analyzeFlows examplePlatform
           (JArr [JObj [(''type'', JStr ''tab'')], JObj [(''type'', JStr ''inject'')]])) = Inr 1
   \<and> map_sum id nodesCount
        (analyzeFlows examplePlatform
           (JArr [JObj [(''type'', JStr ''tab'')], JObj [(''type'', JStr ''inject'')]])) = Inr 1
   \<and> spec_nodesCount [JObj [(''type'', JStr ''tab'')], JObj [(''type'', JStr ''inject'')]] = 1
   \<and> analyzeFlows examplePlatform (JObj []) = Inl InvalidPayload"
  using analyzeFlows_counts
    [where xs = "[JObj [(''type'', JStr ''tab'')], JObj [(''type'', JStr ''inject'')]]"
      and fl = "JObj []" and pf = examplePlatform]
  by (simp add: spec_flowsCount_def spec_nodesCount_def truthyNode_def typeField_def)

theorem analyzeFlows_counts_counterexample:
  "map_sum id nodesCount (analyzeFlows examplePlatform (JArr [JObj [(''type'', JStr [])]])) = Inr 0
   \<and> spec_nodesCount [JObj [(''type'', JStr [])]] = 1
   \<and> map_sum id size'
        (analyzeFlows examplePlatform
           (JArr [JObj [(''type'', JStr ''tab''), (''label'', JStr [CHR 0xE9])]])) = Inr 28
   \<and> utf8_length (stringify (JArr [JObj [(''type'', JStr ''tab''), (''label'', JStr [CHR 0xE9])]]))
       = 29
   \<and> analyzeFlows examplePlatform (JArr [JNull]) = Inl TypeError"
  by code_simp

subsection \<open>Reading the archive\<close>

lemma readIndex_lookup: "readIndex fs = Inr md \<longleftrightarrow> lookup fs metadataFile = Some (IndexFile md)"
  by (auto simp: readIndex_def split: option.splits disk_file.splits)

lemma getBackupFlows_fs: "snd (getBackupFlows pf cfg n fs) = ensureBackupDirectory cfg fs"
  by (simp add: getBackupFlows_def Let_def split: option.splits disk_file.splits)

lemma listBackups_fs: "snd (listBackups d cfg fs) = ensureBackupDirectory cfg fs"
  by (simp add: listBackups_def Let_def split: sum.splits)

lemma checkBackupHealth_fs: "snd (checkBackupHealth pf cfg now fs) = ensureBackupDirectory cfg fs"
  by (simp add: checkBackupHealth_def Let_def split: sum.splits prod.splits)

lemma getBackupFlows_stored:
  assumes "lookup fs (backupFileName n) = Some (BackupFile d)"
  shows "getBackupFlows pf cfg n fs =
     (if checksumOf pf (flows d) \<noteq> checksum (metadata d)
      then Inl (Corrupted ChecksumMismatch) else Inr d, ensureBackupDirectory cfg fs)"
proof -
  from assms have "lookup (ensureBackupDirectory cfg fs) (backupFileName n) = Some (BackupFile d)"
    by (auto simp: lookup_ensure)
  then show ?thesis
    by (simp add: getBackupFlows_def Let_def)
qed

text \<open>
  Claim C1. For every payload that is a sequence of flow elements (no element is
  \<^verbatim>\<open>null\<close>), the analysis succeeds and the digest recomputed over the serialization of the
  payload is the checksum of the analysis; so the integrity check of \<open>getBackupFlows\<close>
  passes on a backup file that holds the payload with that checksum, and the backup is
  returned.
\<close>

theorem checksum_verifies:
  assumes "JNull \<notin> set xs"
    and "lookup fs (backupFileName n) = Some (BackupFile \<lparr>metadata = m, flows = JArr xs\<rparr>)"
  shows "\<exists>a. analyzeFlows pf (JArr xs) = Inr a
      \<and> checksumOf pf (JArr xs) = checksum a
      \<and> (checksum m = checksum a \<longrightarrow>
           getBackupFlows pf cfg n fs =
             (Inr \<lparr>metadata = m, flows = JArr xs\<rparr>, ensureBackupDirectory cfg fs))"
  using analyzeFlows_array [OF assms(1), of pf] getBackupFlows_stored [OF assms(2), of pf cfg]
  by simp

text \<open>
  Claim C9. \<open>listBackups\<close>, \<open>getBackupFlows\<close> and \<open>checkBackupHealth\<close> leave the directory
  as \<open>ensureBackupDirectory\<close> makes it. That first step is idempotent and changes one thing
  only: it creates the directory when absent and writes the empty index when there is no
  index. On a directory that has its index the three operations change nothing at all.
\<close>

theorem read_only_operations:
  "snd (listBackups d cfg fs) = ensureBackupDirectory cfg fs
   \<and> snd (getBackupFlows pf cfg n fs) = ensureBackupDirectory cfg fs
   \<and> snd (checkBackupHealth pf cfg now fs) = ensureBackupDirectory cfg fs
   \<and> ensureBackupDirectory cfg (ensureBackupDirectory cfg fs) = ensureBackupDirectory cfg fs
   \<and> lookup (ensureBackupDirectory cfg fs) p =
       (if p = metadataFile \<and> lookup fs metadataFile = None
        then Some (IndexFile (initialMetadata cfg)) else lookup fs p)
   \<and> (lookup fs metadataFile \<noteq> None \<longrightarrow>
        snd (listBackups d cfg fs) = fs \<and> snd (getBackupFlows pf cfg n fs) = fs
        \<and> snd (checkBackupHealth pf cfg now fs) = fs)"
  using ensure_present [of fs _ cfg]
  by (auto simp: listBackups_fs getBackupFlows_fs checkBackupHealth_fs ensure_idem lookup_ensure)

text \<open>
  Claim C4. On an archive whose index has an entry named \<open>n\<close>, creating a backup named
  \<open>n\<close> fails, whatever the flow source returns, and the directory is left exactly as it
  was: no backup file is written and the index is not touched. When the name is valid and
  the flows were fetched and analysed, the failure is \<open>DuplicateName\<close>. Fetching \<open>n\<close>
  afterwards gives what it gave before.
\<close>

theorem duplicate_name_rejected:
  assumes idx: "readIndex fs = Inr md"
    and dup: "list_ex (\<lambda>b. name b = n) (backups md)"
    and ne: "n \<noteq> []"
  shows "isl (fst (createBackup pf cfg fetched now (Some n) r fs))
    \<and> snd (createBackup pf cfg fetched now (Some n) r fs) = fs
    \<and> (matchesNamePattern n \<and> toLowerCase n \<notin> set reservedNames
        \<and> fetched = Inr (JArr xs) \<and> JNull \<notin> set xs \<longrightarrow>
          createBackup pf cfg fetched now (Some n) r fs = (Inl (DuplicateName n), fs))
    \<and> getBackupFlows pf cfg n (snd (createBackup pf cfg fetched now (Some n) r fs)) =
        getBackupFlows pf cfg n fs
    \<and> readIndex (snd (createBackup pf cfg fetched now (Some n) r fs)) = Inr md"
proof -
  from idx have ens: "ensureBackupDirectory cfg fs = fs"
    by (auto simp: readIndex_lookup intro: ensure_present)
  have nm: "createBackupName (Some n) ts = Inr k \<Longrightarrow> k = n" for ts k
    using ne by (auto simp: createBackupName_def split: if_splits)
  have fails: "isl (fst (createBackup pf cfg fetched now (Some n) r fs))"
    using idx dup nm
    by (auto simp: createBackup_def ens Let_def split: sum.splits)
  have same: "snd (createBackup pf cfg fetched now (Some n) r fs) = fs"
    using idx dup nm
    by (auto simp: createBackup_def ens Let_def split: sum.splits)
  have dupl: "createBackup pf cfg fetched now (Some n) r fs = (Inl (DuplicateName n), fs)"
    if "matchesNamePattern n" "toLowerCase n \<notin> set reservedNames"
      "fetched = Inr (JArr xs)" "JNull \<notin> set xs"
    using that idx dup ne analyzeFlows_array [OF that(4), of pf]
    by (simp add: createBackup_def ens Let_def createBackupName_def)
  from fails same dupl idx show ?thesis by simp
qed

subsection \<open>The operations on an example archive\<close>

lemma tabElems_no_null: "JNull \<notin> set tabElems"
  by (simp add: tabElems_def)

lemma dailyArchive_index: "lookup dailyArchive metadataFile = Some (IndexFile dailyIndex)"
  by (simp add: lookup_def dailyArchive_def)

lemma dailyArchive_daily:
  "lookup dailyArchive (backupFileName ''daily'') =
     Some (BackupFile \<lparr>metadata = dailyMetadata, flows = JArr tabElems\<rparr>)"
  by (simp add: lookup_def dailyArchive_def backupFileName_def metadataFile_def tabFlows_def)

lemma dailyArchive_ensured: "ensureBackupDirectory cfg dailyArchive = dailyArchive"
  using dailyArchive_index by (rule ensure_present)

lemma example_analysis:
  "analyzeFlows pf tabFlows =
     Inr \<lparr>checksum = checksumOf pf tabFlows, flowsCount = 1, nodesCount = 1,
          size' = length (stringify tabFlows)\<rparr>"
  unfolding tabFlows_def
  by (simp add: analyzeFlows_array [OF tabElems_no_null] spec_flowsCount_def)
    (simp add: tabElems_def typeField_def truthyNode_def)

theorem checksum_verifies_witness:
  "JNull \<notin> set tabElems
   \<and> lookup dailyArchive (backupFileName ''daily'') =
       Some (BackupFile \<lparr>metadata = dailyMetadata, flows = JArr tabElems\<rparr>)
   \<and> getBackupFlows examplePlatform exampleConfig ''daily'' dailyArchive =
       (Inr \<lparr>metadata = dailyMetadata, flows = JArr tabElems\<rparr>, dailyArchive)"
proof -
  have cs: "checksum dailyMetadata = checksumOf examplePlatform (JArr tabElems)"
    by (simp add: dailyMetadata_def tabFlows_def)
  from checksum_verifies [OF tabElems_no_null dailyArchive_daily,
      where pf = examplePlatform and cfg = exampleConfig]
  have "getBackupFlows examplePlatform exampleConfig ''daily'' dailyArchive =
         (Inr \<lparr>metadata = dailyMetadata, flows = JArr tabElems\<rparr>,
          ensureBackupDirectory exampleConfig dailyArchive)"
    unfolding cs by auto
  then show ?thesis
    using tabElems_no_null dailyArchive_daily
    by (simp add: dailyArchive_ensured)
qed

theorem read_only_operations_witness:
  "lookup dailyArchive metadataFile \<noteq> None
   \<and> snd (listBackups None exampleConfig dailyArchive) = dailyArchive
   \<and> snd (getBackupFlows examplePlatform exampleConfig ''daily'' dailyArchive) = dailyArchive
   \<and> snd (checkBackupHealth examplePlatform exampleConfig 1793704332123 dailyArchive) = dailyArchive"
proof -
  have p: "lookup dailyArchive metadataFile \<noteq> None"
    by (simp add: dailyArchive_index)
  from read_only_operations [where fs = dailyArchive and cfg = exampleConfig and d = None
      and pf = examplePlatform and n = "''daily''" and now = 1793704332123] p
  show ?thesis by blast
qed

theorem duplicate_name_rejected_witness:
  "readIndex dailyArchive = Inr dailyIndex
   \<and> list_ex (\<lambda>b. name b = ''daily'') (backups dailyIndex)
   \<and> ''daily'' \<noteq> []
   \<and> matchesNamePattern ''daily'' \<and> toLowerCase ''daily'' \<notin> set reservedNames
   \<and> JNull \<notin> set tabElems
   \<and> createBackup examplePlatform exampleConfig (Inr (JArr tabElems)) 1793704339999
        (Some ''daily'') (Some ''again'') dailyArchive
      = (Inl (DuplicateName ''daily''), dailyArchive)"
proof -
  have idx: "readIndex dailyArchive = Inr dailyIndex"
    by (simp add: readIndex_lookup dailyArchive_index)
  have dup: "list_ex (\<lambda>b. name b = ''daily'') (backups dailyIndex)"
    by (simp add: dailyIndex_def entryOf_def dailyMetadata_def)
  have pat: "matchesNamePattern ''daily''"
    by (simp add: matchesNamePattern_def nameChar_def)
  have low: "toLowerCase ''daily'' = ''daily''"
    by code_simp
  have res: "toLowerCase ''daily'' \<notin> set reservedNames"
    unfolding low by (simp add: reservedNames_def)
  have ne: "''daily'' \<noteq> []" by simp
  from duplicate_name_rejected [OF idx dup ne, where fetched = "Inr (JArr tabElems)"
      and xs = tabElems and pf = examplePlatform and cfg = exampleConfig
      and now = 1793704339999 and r = "Some ''again''"]
    pat res tabElems_no_null
  have "createBackup examplePlatform exampleConfig (Inr (JArr tabElems)) 1793704339999
        (Some ''daily'') (Some ''again'') dailyArchive
      = (Inl (DuplicateName ''daily''), dailyArchive)"
    by blast
  with idx dup pat res tabElems_no_null show ?thesis by simp
qed

subsection \<open>The order of the entries and the listing\<close>

lemma sortBackups_mset: "mset (sortBackups bs) = mset bs"
  by (simp add: sortBackups_def)

lemma sortBackups_set: "set (sortBackups bs) = set bs"
  by (simp add: sortBackups_def)

lemma sortBackups_length: "length (sortBackups bs) = length bs"
  by (simp add: sortBackups_def)

lemma sortBackups_sorted: "sorted_wrt (\<lambda>a b. timestamp b \<le> timestamp a) (sortBackups bs)"
proof -
  have "sorted (map (\<lambda>b. - timestamp b) (sortBackups bs))"
    unfolding sortBackups_def by (rule sorted_sort_key)
  then show ?thesis
    by (simp add: sorted_map)
qed

lemma sortBackups_strict:
  assumes "distinct (map timestamp bs)"
  shows "sorted_wrt (\<lambda>a b. timestamp b < timestamp a) (sortBackups bs)"
proof -
  have "mset (map timestamp (sortBackups bs)) = mset (map timestamp bs)"
    by (simp add: sortBackups_mset)
  with assms have d: "distinct (map timestamp (sortBackups bs))"
    by (metis mset_eq_imp_distinct_iff)
  have "distinct (map uminus (map timestamp (sortBackups bs)))"
    using d by (simp add: distinct_map inj_on_def)
  then have "distinct (map (\<lambda>b. - timestamp b) (sortBackups bs))"
    by (simp add: comp_def)
  moreover have "sorted (map (\<lambda>b. - timestamp b) (sortBackups bs))"
    unfolding sortBackups_def by (rule sorted_sort_key)
  ultimately have "sorted_wrt (<) (map (\<lambda>b. - timestamp b) (sortBackups bs))"
    by (simp add: strict_sorted_iff)
  then show ?thesis
    by (simp add: sorted_wrt_map)
qed

lemma views_Nil: "views d k [] = []"
  by (simp add: views_def)

lemma views_Cons: "views d k (x # xs) = viewOf d k x # views d (Suc k) xs"
  by (simp add: views_def)

lemma views_length: "length (views d k xs) = length xs"
  by (simp add: views_def)

lemma views_nth: "i < length xs \<Longrightarrow> views d k xs ! i = viewOf d (k + i) (xs ! i)"
  by (simp add: views_def nth_enumerate_eq)

lemma views_labels:
  "map (\<lambda>v. (view_name v, view_timestamp v, view_reason v)) (views d k xs) =
   map (\<lambda>b. (name b, timestamp b, reason b)) xs"
  by (induction xs arbitrary: k) (simp_all add: views_Nil views_Cons viewOf_def)

lemma views_details:
  "map (\<lambda>v. (view_flowsCount v, view_nodesCount v, view_size v)) (views d k xs) =
   map (\<lambda>b. if d = Some True then (Some (flowsCount b), Some (nodesCount b), Some (size' b))
             else (None, None, None)) xs"
  by (induction xs arbitrary: k) (simp_all add: views_Nil views_Cons viewOf_def)

lemma views_sorted_wrt:
  "sorted_wrt (\<lambda>a b. P (view_timestamp a) (view_timestamp b)) (views d k xs) =
   sorted_wrt (\<lambda>a b. P (timestamp a) (timestamp b)) xs"
proof -
  have "map view_timestamp (views d k xs) = map timestamp xs"
    by (induction xs arbitrary: k) (simp_all add: views_Nil views_Cons viewOf_def)
  then have "sorted_wrt P (map view_timestamp (views d k xs)) = sorted_wrt P (map timestamp xs)"
    by simp
  then show ?thesis by (simp add: sorted_wrt_map)
qed

lemma listBackups_views:
  assumes "readIndex (ensureBackupDirectory cfg fs) = Inr md"
  shows "listBackups d cfg fs =
     (Inr (views d 0 (sortBackups (backups md))), ensureBackupDirectory cfg fs)"
  using assms by (simp add: listBackups_def Let_def views_def)

text \<open>
  Claim C8, as amended. On every archive whose index can be read, \<open>listBackups\<close> returns
  the views of the entries in non-increasing order of timestamp, strictly descending when
  the timestamps of the entries are pairwise distinct; exactly the first view is flagged
  \<open>isLatest\<close>; the counts and the size are members of every view when \<open>detailed\<close> is
  true and of none otherwise; the index in the directory is the one that was read, with
  every field of its entries.
\<close>

theorem list_order_and_views:
  assumes "readIndex (ensureBackupDirectory cfg fs) = Inr md"
  shows "\<exists>vs. listBackups d cfg fs = (Inr vs, ensureBackupDirectory cfg fs)
     \<and> map (\<lambda>v. (view_name v, view_timestamp v, view_reason v)) vs =
         map (\<lambda>b. (name b, timestamp b, reason b)) (sortBackups (backups md))
     \<and> mset (sortBackups (backups md)) = mset (backups md)
     \<and> sorted_wrt (\<lambda>a b. view_timestamp b \<le> view_timestamp a) vs
     \<and> (distinct (map timestamp (backups md)) \<longrightarrow>
          sorted_wrt (\<lambda>a b. view_timestamp b < view_timestamp a) vs)
     \<and> (\<forall>i < length vs. isLatest (vs ! i) = (i = 0))
     \<and> map (\<lambda>v. (view_flowsCount v, view_nodesCount v, view_size v)) vs =
         map (\<lambda>b. if d = Some True
                   then (Some (flowsCount b), Some (nodesCount b), Some (size' b))
                   else (None, None, None)) (sortBackups (backups md))
     \<and> readIndex (snd (listBackups d cfg fs)) = Inr md"
proof -
  let ?vs = "views d 0 (sortBackups (backups md))"
  have l: "listBackups d cfg fs = (Inr ?vs, ensureBackupDirectory cfg fs)"
    using assms by (rule listBackups_views)
  have latest: "\<forall>i < length ?vs. isLatest (?vs ! i) = (i = 0)"
    by (simp add: views_length views_nth viewOf_def)
  have s1: "sorted_wrt (\<lambda>a b. view_timestamp b \<le> view_timestamp a) ?vs"
    using views_sorted_wrt [of "\<lambda>x y. y \<le> x"] by (simp add: sortBackups_sorted)
  have s2: "sorted_wrt (\<lambda>a b. view_timestamp b < view_timestamp a) ?vs"
    if "distinct (map timestamp (backups md))"
    using views_sorted_wrt [of "\<lambda>x y. y < x"] sortBackups_strict [OF that] by simp
  show ?thesis
    using l latest s1 s2 assms
    by (intro exI [of _ ?vs]) (simp add: views_labels views_details sortBackups_mset)
qed

lemma sortBackups_single: "sortBackups [b] = [b]"
  by (simp add: sortBackups_def)

text \<open>
  The archive of three entries, which the index holds in the order a, b, c: the list
  has them as b, c, a.
\<close>

theorem list_order_and_views_witness:
  "readIndex (ensureBackupDirectory exampleConfig fullArchive) = Inr fullIndex
   \<and> map (\<lambda>b. (name b, timestamp b)) (backups fullIndex) =
       [(''a'', 1000), (''b'', 3000), (''c'', 2000)]
   \<and> distinct (map timestamp (backups fullIndex))
   \<and> map_sum id (map (\<lambda>v. (view_name v, view_timestamp v, isLatest v)))
        (fst (listBackups (Some True) exampleConfig fullArchive)) =
       Inr [(''b'', 3000, True), (''c'', 2000, False), (''a'', 1000, False)]
   \<and> map_sum id (map (\<lambda>v. (view_flowsCount v, view_nodesCount v, view_size v)))
        (fst (listBackups (Some True) exampleConfig fullArchive)) =
       Inr [(Some 1, Some 1, Some (length (stringify tabFlows))),
            (Some 1, Some 1, Some (length (stringify tabFlows))),
            (Some 1, Some 1, Some (length (stringify tabFlows)))]
   \<and> map_sum id (map (\<lambda>v. (view_name v, view_timestamp v, isLatest v)))
        (fst (listBackups (Some False) exampleConfig fullArchive)) =
       Inr [(''b'', 3000, True), (''c'', 2000, False), (''a'', 1000, False)]
   \<and> map_sum id (map (\<lambda>v. (view_flowsCount v, view_nodesCount v, view_size v)))
        (fst (listBackups (Some False) exampleConfig fullArchive)) =
       Inr [(None, None, None), (None, None, None), (None, None, None)]
   \<and> readIndex (snd (listBackups (Some False) exampleConfig fullArchive)) = Inr fullIndex"
proof -
  have "lookup fullArchive metadataFile = Some (IndexFile fullIndex)"
    by (simp add: lookup_def fullArchive_def)
  then have idx: "readIndex (ensureBackupDirectory exampleConfig fullArchive) = Inr fullIndex"
    by (simp add: ensure_present readIndex_lookup)
  have held: "map (\<lambda>b. (name b, timestamp b)) (backups fullIndex) =
       [(''a'', 1000), (''b'', 3000), (''c'', 2000)]"
    by (simp add: fullIndex_def entryAt_def entryOf_def)
  have dist: "distinct (map timestamp (backups fullIndex))"
    by (simp add: fullIndex_def entryAt_def entryOf_def)
  have srt: "sortBackups (backups fullIndex) =
      [entryAt ''b'' 3000, entryAt ''c'' 2000, entryAt ''a'' 1000]"
    by (simp add: fullIndex_def sortBackups_def entryAt_def entryOf_def)
  have shape: "\<exists>v1 v2 v3. vs = [v1, v2, v3]" if "length vs = 3" for vs :: "'a list"
    using that by (auto simp: numeral_3_eq_3 length_Suc_conv)
  have listed: "map (\<lambda>v. (view_name v, view_timestamp v, isLatest v)) vs =
        [(''b'', 3000, True), (''c'', 2000, False), (''a'', 1000, False)]"
    if lab: "map (\<lambda>v. (view_name v, view_timestamp v, view_reason v)) vs =
         map (\<lambda>b. (name b, timestamp b, reason b)) (sortBackups (backups fullIndex))"
      and strict: "sorted_wrt (\<lambda>a b. view_timestamp b < view_timestamp a) vs"
      and latest: "\<forall>i < length vs. isLatest (vs ! i) = (i = 0)"
    for vs
  proof -
    from lab have len: "length vs = 3"
      unfolding srt by (auto dest: arg_cong [where f = length])
    from shape [OF len] obtain v1 v2 v3 where vs: "vs = [v1, v2, v3]"
      by blast
    from latest [rule_format, of 0] latest [rule_format, of 1] latest [rule_format, of 2]
    have "isLatest v1" "\<not> isLatest v2" "\<not> isLatest v3"
      by (simp_all add: vs)
    moreover from lab
    have "view_name v1 = ''b''" "view_name v2 = ''c''" "view_name v3 = ''a''"
      "view_timestamp v1 = 3000" "view_timestamp v2 = 2000" "view_timestamp v3 = 1000"
      unfolding srt vs by (simp_all add: entryAt_def entryOf_def)
    ultimately show ?thesis
      by (simp add: vs)
  qed
  from list_order_and_views [OF idx, of "Some True"] dist
  obtain vs where 1: "listBackups (Some True) exampleConfig fullArchive =
        (Inr vs, ensureBackupDirectory exampleConfig fullArchive)"
    and 2: "map (\<lambda>v. (view_name v, view_timestamp v, view_reason v)) vs =
         map (\<lambda>b. (name b, timestamp b, reason b)) (sortBackups (backups fullIndex))"
    and 3: "sorted_wrt (\<lambda>a b. view_timestamp b < view_timestamp a) vs"
    and 4: "\<forall>i < length vs. isLatest (vs ! i) = (i = 0)"
    and 5: "map (\<lambda>v. (view_flowsCount v, view_nodesCount v, view_size v)) vs =
         map (\<lambda>b. if Some True = Some True
                   then (Some (flowsCount b), Some (nodesCount b), Some (size' b))
                   else (None, None, None)) (sortBackups (backups fullIndex))"
    by blast
  from list_order_and_views [OF idx, of "Some False"] dist
  obtain ws where 6: "listBackups (Some False) exampleConfig fullArchive =
        (Inr ws, ensureBackupDirectory exampleConfig fullArchive)"
    and 7: "map (\<lambda>v. (view_name v, view_timestamp v, view_reason v)) ws =
         map (\<lambda>b. (name b, timestamp b, reason b)) (sortBackups (backups fullIndex))"
    and 8: "sorted_wrt (\<lambda>a b. view_timestamp b < view_timestamp a) ws"
    and 9: "\<forall>i < length ws. isLatest (ws ! i) = (i = 0)"
    and 10: "map (\<lambda>v. (view_flowsCount v, view_nodesCount v, view_size v)) ws =
         map (\<lambda>b. if Some False = Some True
                   then (Some (flowsCount b), Some (nodesCount b), Some (size' b))
                   else (None, None, None)) (sortBackups (backups fullIndex))"
    and 11: "readIndex (snd (listBackups (Some False) exampleConfig fullArchive)) = Inr fullIndex"
    by blast
  have a: "map_sum id (map (\<lambda>v. (view_name v, view_timestamp v, isLatest v)))
        (fst (listBackups (Some True) exampleConfig fullArchive)) =
       Inr [(''b'', 3000, True), (''c'', 2000, False), (''a'', 1000, False)]"
    unfolding 1 using listed [OF 2 3 4] by simp
  have b: "map_sum id (map (\<lambda>v. (view_flowsCount v, view_nodesCount v, view_size v)))
        (fst (listBackups (Some True) exampleConfig fullArchive)) =
       Inr [(Some 1, Some 1, Some (length (stringify tabFlows))),
            (Some 1, Some 1, Some (length (stringify tabFlows))),
            (Some 1, Some 1, Some (length (stringify tabFlows)))]"
    unfolding 1 using 5 unfolding srt by (simp add: entryAt_def entryOf_def dailyMetadata_def)
  have c: "map_sum id (map (\<lambda>v. (view_name v, view_timestamp v, isLatest v)))
        (fst (listBackups (Some False) exampleConfig fullArchive)) =
       Inr [(''b'', 3000, True), (''c'', 2000, False), (''a'', 1000, False)]"
    unfolding 6 using listed [OF 7 8 9] by simp
  have d: "map_sum id (map (\<lambda>v. (view_flowsCount v, view_nodesCount v, view_size v)))
        (fst (listBackups (Some False) exampleConfig fullArchive)) =
       Inr [(None, None, None), (None, None, None), (None, None, None)]"
    unfolding 6 using 10 unfolding srt by simp
  from idx held dist a b c d 11 show ?thesis
    by (intro conjI)
qed

theorem strict_order_counterexample:
  "map_sum id (map view_timestamp) (fst (listBackups None exampleConfig tiedArchive)) =
     Inr [1793704332123, 1793704332123]"
proof -
  have "lookup tiedArchive metadataFile \<noteq> None"
    by (simp add: lookup_def tiedArchive_def)
  then have "ensureBackupDirectory exampleConfig tiedArchive = tiedArchive"
    by (auto intro: ensure_present)
  then show ?thesis
    by (simp add: listBackups_def Let_def readIndex_def lookup_def tiedArchive_def sortBackups_def
        entryOf_def dailyMetadata_def viewOf_def)
qed

subsection \<open>Creating a backup\<close>

lemma slice_take: "0 \<le> m \<Longrightarrow> slice xs 0 m = take (nat m) xs"
  by (simp add: slice_def relIndex_def Let_def min_def)

lemma sliceFrom_drop: "0 \<le> m \<Longrightarrow> sliceFrom xs m = drop (nat m) xs"
  by (simp add: sliceFrom_def relIndex_def min_def)

lemma dirExists_writeFile: "dirExists (writeFile fs p f) = dirExists fs"
  by (simp add: writeFile_def)

lemma lookup_writeFile:
  "dirExists fs \<Longrightarrow> lookup (writeFile fs p f) q = (if q = p then Some f else lookup fs q)"
  by (simp add: lookup_def writeFile_def)

lemma dirExists_unlink: "unlink fs p = Inr fs' \<Longrightarrow> dirExists fs' = dirExists fs"
  by (auto simp: unlink_def split: option.splits)

lemma dirExists_unlinkAll: "dirExists (unlinkAll fs ps) = dirExists fs"
  by (induction ps arbitrary: fs) (auto split: sum.splits dest: dirExists_unlink)

lemma dirExists_autoCleanupStep: "dirExists (snd (autoCleanupStep c pushed fs)) = dirExists fs"
  by (simp add: autoCleanupStep_def Let_def dirExists_unlinkAll)

lemma autoCleanupStep_kept:
  assumes "0 \<le> maxBackups c"
  shows "fst (autoCleanupStep c pushed fs) =
     (if autoCleanup c \<and> int (length pushed) > maxBackups c
      then take (nat (maxBackups c)) (sortBackups pushed) else pushed)"
  using assms by (simp add: autoCleanupStep_def Let_def slice_take)

lemma createBackup_completes:
  assumes "fetched = Inr fl"
    and "createBackupName nm (toISOString now) = Inr bn"
    and "analyzeFlows pf fl = Inr an"
    and "readIndex (ensureBackupDirectory cfg fs) = Inr md"
    and "\<not> list_ex (\<lambda>b. name b = bn) (backups md)"
  shows "createBackup pf cfg fetched now nm r fs =
     (Inr (newMetadata bn now r an),
      writeFile
        (snd (autoCleanupStep (config md) (backups md @ [entryOf (newMetadata bn now r an)])
               (writeFile (ensureBackupDirectory cfg fs) (backupFileName bn)
                  (BackupFile \<lparr>metadata = newMetadata bn now r an, flows = reparse fl\<rparr>))))
        metadataFile
        (IndexFile (md\<lparr>backups :=
           fst (autoCleanupStep (config md) (backups md @ [entryOf (newMetadata bn now r an)])
                 (writeFile (ensureBackupDirectory cfg fs) (backupFileName bn)
                    (BackupFile \<lparr>metadata = newMetadata bn now r an,
                                  flows = reparse fl\<rparr>)))\<rparr>)))"
  using assms by (simp add: createBackup_def Let_def split: prod.splits)

lemma createBackup_Inr:
  assumes "fst (createBackup pf cfg fetched now nm r fs) = Inr m"
  obtains fl bn an md where "fetched = Inr fl"
    and "createBackupName nm (toISOString now) = Inr bn"
    and "analyzeFlows pf fl = Inr an"
    and "readIndex (ensureBackupDirectory cfg fs) = Inr md"
    and "\<not> list_ex (\<lambda>b. name b = bn) (backups md)"
    and "m = newMetadata bn now r an"
  using assms
  by (auto simp: createBackup_def Let_def split: sum.splits if_splits prod.splits)

lemma readIndex_written:
  "dirExists fs \<Longrightarrow> readIndex (writeFile fs metadataFile (IndexFile d)) = Inr d"
  by (simp add: readIndex_def lookup_writeFile)

lemma take_drop_sorted:
  assumes "sorted_wrt (\<lambda>a b. timestamp b \<le> timestamp a) xs"
  shows "\<forall>k\<in>set (take n xs). \<forall>e\<in>set (drop n xs). timestamp e \<le> timestamp k"
proof -
  have "sorted_wrt (\<lambda>a b. timestamp b \<le> timestamp a) (take n xs @ drop n xs)"
    using assms by simp
  then show ?thesis
    unfolding sorted_wrt_append by blast
qed

text \<open>
  Claim C2. Take an index with automatic cleanup and a capacity that is not negative.
  When \<open>createBackup\<close> completes, the index it leaves has at most \<open>maxBackups\<close> entries.
  The entries that stay and the entries that are evicted are together the old entries
  and the new one, and no evicted entry is newer than an entry that stays; when the
  capacity is exceeded exactly \<open>maxBackups\<close> entries stay, otherwise none is evicted.
  The outcome does not depend on the backup files: on any directory with the same index,
  whether the files of the evicted entries can be deleted or are missing, the call
  completes with the same metadata and leaves the same index.
\<close>

theorem cleanup_bounds_index:
  assumes fin: "fst (createBackup pf cfg fetched now nm r fs) = Inr m"
    and idx: "readIndex (ensureBackupDirectory cfg fs) = Inr md"
    and auto: "autoCleanup (config md)"
    and cap: "0 \<le> maxBackups (config md)"
  shows "\<exists>kept evicted.
      readIndex (snd (createBackup pf cfg fetched now nm r fs)) = Inr (md\<lparr>backups := kept\<rparr>)
    \<and> int (length kept) \<le> maxBackups (config md)
    \<and> mset kept + mset evicted = mset (backups md @ [entryOf m])
    \<and> (\<forall>k\<in>set kept. \<forall>e\<in>set evicted. timestamp e \<le> timestamp k)
    \<and> (maxBackups (config md) < int (length (backups md)) + 1 \<longrightarrow>
         int (length kept) = maxBackups (config md))
    \<and> (int (length (backups md)) + 1 \<le> maxBackups (config md) \<longrightarrow> evicted = [])
    \<and> (\<forall>fs2. readIndex (ensureBackupDirectory cfg fs2) = Inr md \<longrightarrow>
          fst (createBackup pf cfg fetched now nm r fs2) = Inr m
          \<and> readIndex (snd (createBackup pf cfg fetched now nm r fs2)) =
              Inr (md\<lparr>backups := kept\<rparr>))"
proof -
  from fin obtain fl bn an md' where f: "fetched = Inr fl"
    and nmok: "createBackupName nm (toISOString now) = Inr bn"
    and an: "analyzeFlows pf fl = Inr an"
    and idx': "readIndex (ensureBackupDirectory cfg fs) = Inr md'"
    and fresh': "\<not> list_ex (\<lambda>b. name b = bn) (backups md')"
    and m: "m = newMetadata bn now r an"
    by (rule createBackup_Inr)
  from idx idx' have "md' = md" by simp
  with fresh' have fresh: "\<not> list_ex (\<lambda>b. name b = bn) (backups md)" by simp
  let ?pushed = "backups md @ [entryOf m]"
  let ?n = "nat (maxBackups (config md))"
  let ?prune = "maxBackups (config md) < int (length ?pushed)"
  let ?kept = "if ?prune then take ?n (sortBackups ?pushed) else ?pushed"
  let ?evicted = "if ?prune then drop ?n (sortBackups ?pushed) else []"
  have after: "fst (createBackup pf cfg fetched now nm r fs2) = Inr m
      \<and> readIndex (snd (createBackup pf cfg fetched now nm r fs2)) = Inr (md\<lparr>backups := ?kept\<rparr>)"
    if i2: "readIndex (ensureBackupDirectory cfg fs2) = Inr md" for fs2
  proof -
    note c = createBackup_completes [OF f nmok an i2 fresh, of r, folded m]
    have k: "fst (autoCleanupStep (config md) ?pushed fsx) = ?kept" for fsx
      using auto cap by (simp add: autoCleanupStep_kept)
    show ?thesis
      unfolding c
      by (simp add: k readIndex_written dirExists_autoCleanupStep dirExists_writeFile
          dirExists_ensure del: length_append)
  qed
  have bound: "int (length ?kept) \<le> maxBackups (config md)"
    using cap by (auto simp: sortBackups_length)
  have perm: "mset ?kept + mset ?evicted = mset ?pushed"
  proof (cases ?prune)
    case True
    have "mset (take ?n (sortBackups ?pushed)) + mset (drop ?n (sortBackups ?pushed)) =
        mset (sortBackups ?pushed)"
      by (metis append_take_drop_id mset_append)
    with True show ?thesis by (simp only: sortBackups_mset if_True)
  next
    case False
    then show ?thesis by simp
  qed
  have ord: "\<forall>k\<in>set ?kept. \<forall>e\<in>set ?evicted. timestamp e \<le> timestamp k"
    using take_drop_sorted [OF sortBackups_sorted, of ?n ?pushed] by simp
  have full: "?prune \<longrightarrow> int (length ?kept) = maxBackups (config md)"
    using cap by (auto simp: sortBackups_length)
  have none: "\<not> ?prune \<longrightarrow> ?evicted = []"
    by simp
  from after [OF idx] bound perm ord full none after
  have "readIndex (snd (createBackup pf cfg fetched now nm r fs)) = Inr (md\<lparr>backups := ?kept\<rparr>)
    \<and> int (length ?kept) \<le> maxBackups (config md)
    \<and> mset ?kept + mset ?evicted = mset (backups md @ [entryOf m])
    \<and> (\<forall>k\<in>set ?kept. \<forall>e\<in>set ?evicted. timestamp e \<le> timestamp k)
    \<and> (maxBackups (config md) < int (length (backups md)) + 1 \<longrightarrow>
         int (length ?kept) = maxBackups (config md))
    \<and> (int (length (backups md)) + 1 \<le> maxBackups (config md) \<longrightarrow> ?evicted = [])
    \<and> (\<forall>fs2. readIndex (ensureBackupDirectory cfg fs2) = Inr md \<longrightarrow>
          fst (createBackup pf cfg fetched now nm r fs2) = Inr m
          \<and> readIndex (snd (createBackup pf cfg fetched now nm r fs2)) =
              Inr (md\<lparr>backups := ?kept\<rparr>))"
    by simp
  then show ?thesis by blast
qed

lemma fullArchive_index: "readIndex (ensureBackupDirectory cfg fullArchive) = Inr fullIndex"
proof -
  have "lookup fullArchive metadataFile = Some (IndexFile fullIndex)"
    by (simp add: lookup_def fullArchive_def)
  then show ?thesis
    by (simp add: ensure_present readIndex_lookup)
qed

lemma name_d: "createBackupName (Some ''d'') ts = Inr ''d''"
proof -
  have "toLowerCase ''d'' = ''d''" by code_simp
  then show ?thesis
    by (simp add: createBackupName_def matchesNamePattern_def nameChar_def reservedNames_def)
qed

lemma fullArchive_create:
  "fst (createBackup examplePlatform exampleConfig (Inr tabFlows) 4000 (Some ''d'') None
         fullArchive) =
     Inr (newMetadata ''d'' 4000 None
           \<lparr>checksum = checksumOf examplePlatform tabFlows, flowsCount = 1, nodesCount = 1,
            size' = length (stringify tabFlows)\<rparr>)"
  by (subst createBackup_completes [OF refl name_d example_analysis fullArchive_index])
    (simp_all add: fullIndex_def entryAt_def entryOf_def)

lemma fullArchive_kept:
  "map_sum id (\<lambda>d. map name (backups d))
     (readIndex (snd (createBackup examplePlatform exampleConfig (Inr tabFlows) 4000
                        (Some ''d'') None fullArchive))) = Inr [''d'', ''b'', ''c'']"
  by (subst createBackup_completes [OF refl name_d example_analysis fullArchive_index])
    (simp_all add: fullIndex_def entryAt_def entryOf_def readIndex_written
      dirExists_autoCleanupStep dirExists_writeFile dirExists_ensure autoCleanupStep_kept
      sortBackups_def newMetadata_def dailyMetadata_def)

theorem cleanup_bounds_index_witness:
  "fst (createBackup examplePlatform exampleConfig (Inr tabFlows) 4000 (Some ''d'') None
         fullArchive) =
     Inr (newMetadata ''d'' 4000 None
           \<lparr>checksum = checksumOf examplePlatform tabFlows, flowsCount = 1, nodesCount = 1,
            size' = length (stringify tabFlows)\<rparr>)
   \<and> readIndex (ensureBackupDirectory exampleConfig fullArchive) = Inr fullIndex
   \<and> autoCleanup (config fullIndex) \<and> 0 \<le> maxBackups (config fullIndex)
   \<and> maxBackups (config fullIndex) < int (length (backups fullIndex)) + 1
   \<and> lookup fullArchive (filename (entryAt ''a'' 1000)) = None
   \<and> map_sum id (\<lambda>d. int (length (backups d)))
        (readIndex (snd (createBackup examplePlatform exampleConfig (Inr tabFlows) 4000
                           (Some ''d'') None fullArchive))) = Inr 3
   \<and> map_sum id (\<lambda>d. map name (backups d))
        (readIndex (snd (createBackup examplePlatform exampleConfig (Inr tabFlows) 4000
                           (Some ''d'') None fullArchive))) = Inr [''d'', ''b'', ''c'']"
proof -
  have a: "autoCleanup (config fullIndex)" and c: "0 \<le> maxBackups (config fullIndex)"
    and p: "maxBackups (config fullIndex) < int (length (backups fullIndex)) + 1"
    and m: "maxBackups (config fullIndex) = 3"
    by (simp_all add: fullIndex_def)
  have gone: "lookup fullArchive (filename (entryAt ''a'' 1000)) = None"
    by (simp add: lookup_def fullArchive_def entryAt_def entryOf_def backupFileName_def
        metadataFile_def)
  from cleanup_bounds_index [OF fullArchive_create fullArchive_index a c] p
  obtain kept where "readIndex (snd (createBackup examplePlatform exampleConfig (Inr tabFlows)
        4000 (Some ''d'') None fullArchive)) = Inr (fullIndex\<lparr>backups := kept\<rparr>)"
    and "int (length kept) = maxBackups (config fullIndex)"
    by blast
  then have "map_sum id (\<lambda>d. int (length (backups d)))
        (readIndex (snd (createBackup examplePlatform exampleConfig (Inr tabFlows) 4000
                           (Some ''d'') None fullArchive))) = Inr 3"
    by (simp add: m)
  with fullArchive_create fullArchive_index a c p gone fullArchive_kept show ?thesis
    by (intro conjI)
qed

subsection \<open>The health report\<close>

lemma le_div_iff_int:
  fixes a b k :: int
  assumes "0 < b"
  shows "k \<le> a div b \<longleftrightarrow> k * b \<le> a"
proof
  assume "k \<le> a div b"
  then have "k * b \<le> (a div b) * b"
    using assms by (simp add: mult_right_mono)
  also have "\<dots> = a - a mod b"
    by (simp add: minus_mod_eq_div_mult)
  also have "\<dots> \<le> a"
    using assms by simp
  finally show "k * b \<le> a" .
next
  assume "k * b \<le> a"
  then have "(k * b) div b \<le> a div b"
    using assms by (rule zdiv_mono1)
  then show "k \<le> a div b"
    using assms by simp
qed

lemma age_threshold: "24 < ageMinutes now t \<longleftrightarrow> 25 * 60000 - 30000 \<le> now - t"
proof -
  have "24 < ageMinutes now t \<longleftrightarrow> 25 \<le> (now - t + 30000) div 60000"
    unfolding ageMinutes_def by linarith
  also have "\<dots> \<longleftrightarrow> 25 * 60000 \<le> now - t + 30000"
    by (rule le_div_iff_int) simp
  also have "\<dots> \<longleftrightarrow> 25 * 60000 - 30000 \<le> now - t"
    by linarith
  finally show ?thesis .
qed

lemma staleIssue_distinct:
  "staleIssue \<noteq> corruptedIssue n" "staleIssue \<noteq> limitIssue k m" "staleIssue \<noteq> sizeIssue"
  by (simp_all add: staleIssue_def corruptedIssue_def limitIssue_def sizeIssue_def)

lemma stale_in_issues:
  "staleIssue \<in> set (healthIssues corrupted (Some a) cnt maxB tot) \<longleftrightarrow> 24 < a"
  using staleIssue_distinct(1) [of corrupted] staleIssue_distinct(2) [of cnt maxB]
    staleIssue_distinct(3)
  by (auto simp: healthIssues_def)

lemma checkBackupHealth_nonempty:
  assumes "readIndex (ensureBackupDirectory cfg fs) = Inr md" and "backups md \<noteq> []"
  shows "fst (checkBackupHealth pf cfg now fs) =
     (case fold (checkEntry pf (ensureBackupDirectory cfg fs)) (backups md) (0, 0) of
        (tot, corrupted) \<Rightarrow>
          \<lparr>healthy = (corrupted = 0), count' = length (backups md), totalSize = tot,
           latestAge = Some (ageMinutes now (timestamp (hd (sortBackups (backups md))))),
           location = backupDir cfg,
           issues = healthIssues corrupted
                      (Some (ageMinutes now (timestamp (hd (sortBackups (backups md))))))
                      (length (backups md)) (maxBackups (config md)) tot\<rparr>)"
proof -
  have "sortBackups (backups md) \<noteq> []"
    using assms(2) sortBackups_length [of "backups md"] by auto
  then obtain newest rest where s: "sortBackups (backups md) = newest # rest"
    by (cases "sortBackups (backups md)") auto
  show ?thesis
    using assms by (simp add: checkBackupHealth_def Let_def s split: prod.splits)
qed

lemma health_advisories:
  assumes "readIndex (ensureBackupDirectory cfg fs) = Inr md" and "backups md \<noteq> []"
  shows "(staleIssue \<in> set (issues (fst (checkBackupHealth pf cfg now fs))) \<longleftrightarrow>
           25 * 60000 - 30000 \<le> now - timestamp (hd (sortBackups (backups md))))
       \<and> (healthy (fst (checkBackupHealth pf cfg now fs)) \<longleftrightarrow>
           snd (fold (checkEntry pf (ensureBackupDirectory cfg fs)) (backups md) (0, 0)) = 0)"
  unfolding checkBackupHealth_nonempty [OF assms]
  by (simp add: stale_in_issues age_threshold split: prod.splits)

text \<open>
  Claim C6. The claim puts the staleness advisory at an age of more than 24 hours. The
  source compares the age in minutes with 24, as \<open>health_advisories\<close> shows: the advisory
  is in the report from an age of 24.5 minutes on. Here the report on an archive whose
  only backup is intact and 25 minutes old: the advisory is emitted, and the report is
  healthy, since an advisory does not change that flag.
\<close>

theorem stale_after_25_minutes:
  "checkBackupHealth examplePlatform exampleConfig 1793705832123 dailyArchive =
     (\<lparr>healthy = True, count' = 1, totalSize = 100, latestAge = Some 25,
       location = ''/data/.mcp-backups'', issues = [staleIssue]\<rparr>, dailyArchive)
   \<and> 1793705832123 - timestamp dailyMetadata = 25 * 60 * 1000
   \<and> (25 * 60 * 1000 :: int) < 24 * 60 * 60 * 1000"
proof -
  have idx: "readIndex (ensureBackupDirectory exampleConfig dailyArchive) = Inr dailyIndex"
    by (simp add: dailyArchive_ensured readIndex_lookup dailyArchive_index)
  have ne: "backups dailyIndex \<noteq> []"
    by (simp add: dailyIndex_def)
  have chk: "fold (checkEntry examplePlatform (ensureBackupDirectory exampleConfig dailyArchive))
      (backups dailyIndex) (0, 0) = (100, 0)"
    using dailyArchive_daily
    by (simp add: dailyArchive_ensured dailyIndex_def checkEntry_def entryOf_def tabFlows_def
        dailyMetadata_def examplePlatform_def backupFileName_def)
  have srt: "hd (sortBackups (backups dailyIndex)) = entryOf dailyMetadata"
    by (simp add: dailyIndex_def sortBackups_single)
  have age: "ageMinutes 1793705832123 (timestamp (entryOf dailyMetadata)) = 25"
    by (simp add: ageMinutes_def entryOf_def dailyMetadata_def)
  have iss: "healthIssues 0 (Some 25) (Suc 0) 3 100 = [staleIssue]"
    by (simp add: healthIssues_def)
  have "fst (checkBackupHealth examplePlatform exampleConfig 1793705832123 dailyArchive) =
     \<lparr>healthy = True, count' = 1, totalSize = 100, latestAge = Some 25,
       location = ''/data/.mcp-backups'', issues = [staleIssue]\<rparr>"
    unfolding checkBackupHealth_nonempty [OF idx ne] chk srt age
    by (simp add: iss dailyIndex_def exampleConfig_def)
  moreover have "snd (checkBackupHealth examplePlatform exampleConfig 1793705832123 dailyArchive)
      = dailyArchive"
    by (simp add: checkBackupHealth_fs dailyArchive_ensured)
  moreover have "1793705832123 - timestamp dailyMetadata = 25 * 60 * 1000"
    by (simp add: dailyMetadata_def)
  ultimately show ?thesis
    by (simp add: prod_eq_iff)
qed

subsection \<open>The serialization is injective\<close>

lemma digit_numChar: "numChar (digit n)"
  using digit_cases [of n] by (auto simp: numChar_def)

lemma show_nat_numChars: "list_all numChar (show_nat n)"
  by (induction n rule: show_nat.induct) (subst show_nat.simps, simp add: digit_numChar)

lemma show_nat_nonempty: "show_nat n \<noteq> []"
  by (subst show_nat.simps) simp

lemma digit_inj: "digit a = digit b \<Longrightarrow> a mod 10 = b mod 10"
proof -
  assume "digit a = digit b"
  moreover have "distinct ''0123456789''" by simp
  moreover have "a mod 10 < length ''0123456789''" "b mod 10 < length ''0123456789''" by simp_all
  ultimately show ?thesis
    unfolding digit_def by (simp only: nth_eq_iff_index_eq)
qed

lemma show_nat_inj: "show_nat a = show_nat b \<Longrightarrow> a = b"
proof (induction a arbitrary: b rule: show_nat.induct)
  case (1 n)
  show ?case
  proof (cases "n < 10")
    case True
    then have sn: "show_nat n = [digit n]" by (subst show_nat.simps) simp
    show ?thesis
    proof (cases "b < 10")
      case b: True
      then have "show_nat b = [digit b]" by (subst show_nat.simps) simp
      with sn "1.prems" have "n mod 10 = b mod 10" by (auto dest: digit_inj)
      with True b show ?thesis by simp
    next
      case b: False
      then have "show_nat b = show_nat (b div 10) @ [digit b]" by (subst show_nat.simps) simp
      with sn "1.prems" show_nat_nonempty [of "b div 10"] show ?thesis by (cases "show_nat (b div 10)") auto
    qed
  next
    case False
    then have sn: "show_nat n = show_nat (n div 10) @ [digit n]" by (subst show_nat.simps) simp
    show ?thesis
    proof (cases "b < 10")
      case b: True
      then have "show_nat b = [digit b]" by (subst show_nat.simps) simp
      with sn "1.prems" show_nat_nonempty [of "n div 10"] show ?thesis by (cases "show_nat (n div 10)") auto
    next
      case b: False
      then have sb: "show_nat b = show_nat (b div 10) @ [digit b]" by (subst show_nat.simps) simp
      from sn sb "1.prems" have "show_nat (n div 10) = show_nat (b div 10)" "digit n = digit b"
        by auto
      with "1.IH" [OF False] have "n div 10 = b div 10" "n mod 10 = b mod 10"
        by (auto dest: digit_inj)
      then show ?thesis by (metis div_mult_mod_eq)
    qed
  qed
qed

lemma show_nat_digits: "list_all isDigit (show_nat n)"
  by (induction n rule: show_nat.induct) (subst show_nat.simps, simp add: isDigit_digit)

lemma show_nat_no_minus: "CHR ''-'' \<notin> set (show_nat n)"
  using show_nat_digits [of n] isDigit_neqs(1) by (auto simp: list_all_iff)

lemma show_int_inj: "show_int a = show_int b \<Longrightarrow> a = b"
proof -
  assume eq: "show_int a = show_int b"
  have hd_pos: "hd (show_nat k) \<noteq> CHR ''-''" for k
    using show_nat_no_minus [of k] show_nat_nonempty [of k] by (cases "show_nat k") auto
  show ?thesis
  proof (cases "a < 0")
    case True
    show ?thesis
    proof (cases "b < 0")
      case b: True
      with True eq have "show_nat (nat (- a)) = show_nat (nat (- b))" by (simp add: show_int_def)
      then have "nat (- a) = nat (- b)" by (rule show_nat_inj)
      with True b show ?thesis by simp
    next
      case b: False
      with True eq hd_pos [of "nat b"] show ?thesis
        by (cases "show_nat (nat b)") (auto simp: show_int_def)
    qed
  next
    case False
    show ?thesis
    proof (cases "b < 0")
      case b: True
      with False eq hd_pos [of "nat a"] show ?thesis
        by (cases "show_nat (nat a)") (auto simp: show_int_def)
    next
      case b: False
      with False eq have "show_nat (nat a) = show_nat (nat b)" by (simp add: show_int_def)
      then have "nat a = nat b" by (rule show_nat_inj)
      with False b show ?thesis by simp
    qed
  qed
qed

lemma show_int_numChars: "list_all numChar (show_int i)"
  using show_nat_numChars by (simp add: show_int_def numChar_def)

lemma show_int_nonempty: "show_int i \<noteq> []"
  by (simp add: show_int_def show_nat_nonempty)

lemma hexdigit_inj: "hexdigit a = hexdigit b \<Longrightarrow> a mod 16 = b mod 16"
proof -
  assume "hexdigit a = hexdigit b"
  moreover have "distinct ''0123456789abcdef''" by simp
  moreover have "a mod 16 < length ''0123456789abcdef''" "b mod 16 < length ''0123456789abcdef''"
    by simp_all
  ultimately show ?thesis
    unfolding hexdigit_def by (simp only: nth_eq_iff_index_eq)
qed

lemma hex_pair_inj:
  assumes "hexdigit (of_char c div 16) = hexdigit (of_char d div 16)"
    and "hexdigit (of_char c) = hexdigit (of_char d)"
  shows "c = d"
proof -
  let ?n = "of_char c :: nat" and ?m = "of_char d :: nat"
  have lt: "?n < 256" "?m < 256" by simp_all
  from assms have "?n div 16 mod 16 = ?m div 16 mod 16" "?n mod 16 = ?m mod 16"
    by (auto dest: hexdigit_inj)
  with lt have "?n div 16 = ?m div 16" "?n mod 16 = ?m mod 16"
    by (simp_all add: less_mult_imp_div_less)
  then have "?n = ?m" by (metis div_mult_mod_eq)
  then show ?thesis by simp
qed

lemma quote_char_hd: "quote_char c \<noteq> [] \<and> hd (quote_char c) \<noteq> CHR 0x22"
  by (simp add: quote_char_def)

lemma quote_char_prefix:
  assumes "quote_char c @ X = quote_char d @ Y"
  shows "c = d \<and> X = Y"
  using assms hex_pair_inj [of c d]
  by (auto simp: quote_char_def split: if_splits)

lemma quoted_body_inj:
  "concat (map quote_char s) @ CHR 0x22 # r = concat (map quote_char t) @ CHR 0x22 # r'
   \<Longrightarrow> s = t \<and> r = r'"
proof (induction s arbitrary: t)
  case Nil
  show ?case
  proof (cases t)
    case Nil
    with Nil.prems show ?thesis by simp
  next
    case (Cons d t')
    with Nil.prems quote_char_hd [of d] show ?thesis
      by (cases "quote_char d") auto
  qed
next
  case (Cons c s)
  show ?case
  proof (cases t)
    case Nil
    with Cons.prems quote_char_hd [of c] show ?thesis
      by (cases "quote_char c") auto
  next
    case (Cons d t')
    with Cons.prems have "quote_char c @ (concat (map quote_char s) @ CHR 0x22 # r) =
        quote_char d @ (concat (map quote_char t') @ CHR 0x22 # r')"
      by simp
    then have "c = d" and "concat (map quote_char s) @ CHR 0x22 # r =
        concat (map quote_char t') @ CHR 0x22 # r'"
      by (auto dest: quote_char_prefix)
    with Cons.IH [of t'] Cons show ?thesis by simp
  qed
qed

lemma quote_inj: "quote s @ r = quote t @ r' \<Longrightarrow> s = t \<and> r = r'"
  using quoted_body_inj [of s r t r'] by (simp add: quote_def)

lemma num_split:
  assumes "list_all numChar xs" "list_all numChar ys" "delim r" "delim s" "xs @ r = ys @ s"
  shows "xs = ys \<and> r = s"
proof -
  have tw: "takeWhile numChar (zs @ q) = zs" if "list_all numChar zs" "delim q" for zs q
    using that by (cases q) (auto simp: delim_def list_all_iff takeWhile_append2)
  from tw [OF assms(1,3)] tw [OF assms(2,4)] assms(5) have "xs = ys" by simp
  with assms(5) show ?thesis by simp
qed

lemma show_int_zero: "show_int 0 = ''0''"
  by (simp add: show_int_def show_nat.simps digit_def)

lemma tag_less: "tag v < 6"
  by (induction v rule: tag.induct) simp_all

lemma tag_null: "tag w = 0 \<Longrightarrow> stringify w = ''null'' \<and> reparse w = JNull"
  by (induction w rule: tag.induct) simp_all

lemma tag_bool: "tag w = 1 \<Longrightarrow> \<exists>c. w = JBool c"
  by (induction w rule: tag.induct) simp_all

lemma tag_number:
  "tag w = 2 \<Longrightarrow> \<exists>m. stringify w = show_int m \<and> reparse w = JNum (Integer m)"
  by (induction w rule: tag.induct) (simp_all add: show_int_zero [symmetric])

lemma tag_string: "tag w = 3 \<Longrightarrow> \<exists>y. w = JStr y"
  by (induction w rule: tag.induct) simp_all

lemma tag_array: "tag w = 4 \<Longrightarrow> \<exists>ys. w = JArr ys"
  by (induction w rule: tag.induct) simp_all

lemma tag_object: "tag w = 5 \<Longrightarrow> \<exists>qs. w = JObj qs"
  by (induction w rule: tag.induct) simp_all

lemma stringify_hd: "stringify v \<noteq> [] \<and> tagOfChar (hd (stringify v)) = tag v"
proof (induction v rule: tag.induct)
  case (3 n)
  from show_int_numChars [of n] show_int_nonempty [of n]
  have "numChar (hd (show_int n))" by (cases "show_int n") auto
  then have "tagOfChar (hd (show_int n)) = 2"
    by (auto simp: tagOfChar_def numChar_def)
  with show_int_nonempty [of n] show ?case by simp
qed (simp_all add: tagOfChar_def numChar_def quote_def)

lemma stringify_tag:
  assumes "stringify v @ r = stringify w @ s"
  shows "tag v = tag w"
proof -
  from stringify_hd [of v] stringify_hd [of w] assms
  have "hd (stringify v) = hd (stringify w)"
    by (cases "stringify v"; cases "stringify w") auto
  with stringify_hd [of v] stringify_hd [of w] show ?thesis by metis
qed

lemma stringify_not_close:
  "stringify v @ r \<noteq> CHR '']'' # s" "stringify v @ r \<noteq> CHR ''}'' # s"
proof -
  have "hd (stringify v @ r) = hd (stringify v)"
    using stringify_hd [of v] by simp
  then have t: "tagOfChar (hd (stringify v @ r)) < 6"
    using stringify_hd [of v] tag_less [of v] by simp
  show "stringify v @ r \<noteq> CHR '']'' # s"
    using t by (auto simp: tagOfChar_def numChar_def)
  show "stringify v @ r \<noteq> CHR ''}'' # s"
    using t by (auto simp: tagOfChar_def numChar_def)
qed

lemma elems_Cons:
  "stringify_elems (x # xs) =
     stringify x @ (if xs = [] then [] else CHR '','' # stringify_elems xs)"
  by (cases xs) simp_all

lemma props_Cons:
  "stringify_props ((k, v) # ps) =
     quote k @ CHR '':'' # stringify v @ (if ps = [] then [] else CHR '','' # stringify_props ps)"
  by (cases ps) auto

lemma reparse_elems_Nil: "reparse_elems xs = [] \<longleftrightarrow> xs = []"
  by (cases xs) simp_all

lemma reparse_props_Nil: "reparse_props ps = [] \<longleftrightarrow> ps = []"
  by (cases ps) auto

text \<open>The serialization of a value is that of the value read back from it.\<close>

lemma stringify_reparse:
  "stringify (reparse v) = stringify v"
  "stringify_elems (reparse_elems xs) = stringify_elems xs"
  "stringify_props (reparse_props ps) = stringify_props ps"
  by (induction v and xs and ps rule: reparse_reparse_elems_reparse_props.induct)
    (simp_all add: elems_Cons props_Cons reparse_elems_Nil reparse_props_Nil show_int_zero)

lemma delim_marks: "delim (CHR '','' # r)" "delim (CHR '']'' # r)" "delim (CHR ''}'' # r)"
  by (simp_all add: delim_def numChar_def)

lemma unambiguousD:
  "unambiguous v \<Longrightarrow> stringify v @ r = stringify w @ s \<Longrightarrow> delim r \<Longrightarrow> delim s
   \<Longrightarrow> reparse v = reparse w \<and> r = s"
  unfolding unambiguous_def by blast

lemma elems_inj:
  assumes "\<And>x. x \<in> set xs \<Longrightarrow> unambiguous x"
    and "stringify_elems xs @ CHR '']'' # r = stringify_elems ys @ CHR '']'' # s"
  shows "reparse_elems xs = reparse_elems ys \<and> r = s"
  using assms
proof (induction xs arbitrary: ys)
  case Nil
  show ?case
  proof (cases ys)
    case Nil
    with Nil.prems(2) show ?thesis by simp
  next
    case (Cons y ys')
    from Nil.prems(2) have "stringify y @
        ((if ys' = [] then [] else CHR '','' # stringify_elems ys') @ CHR '']'' # s) = CHR '']'' # r"
      unfolding Cons elems_Cons by simp
    with stringify_not_close(1) show ?thesis by blast
  qed
next
  case (Cons x xs)
  show ?case
  proof (cases ys)
    case Nil
    from Cons.prems(2) have "stringify x @
        ((if xs = [] then [] else CHR '','' # stringify_elems xs) @ CHR '']'' # r) = CHR '']'' # s"
      unfolding Nil elems_Cons by simp
    with stringify_not_close(1) show ?thesis by blast
  next
    case (Cons y ys')
    let ?A = "(if xs = [] then [] else CHR '','' # stringify_elems xs) @ CHR '']'' # r"
    let ?B = "(if ys' = [] then [] else CHR '','' # stringify_elems ys') @ CHR '']'' # s"
    from Cons.prems(2) have eq: "stringify x @ ?A = stringify y @ ?B"
      unfolding Cons elems_Cons by simp
    have dA: "delim ?A" and dB: "delim ?B" by (simp_all add: delim_marks)
    have ux: "unambiguous x" by (rule Cons.prems(1)) simp
    from unambiguousD [OF ux eq dA dB] have xy: "reparse x = reparse y" and ab: "?A = ?B"
      by blast+
    have "reparse_elems xs = reparse_elems ys' \<and> r = s"
    proof (cases "xs = []")
      case True
      with ab show ?thesis by (cases "ys' = []") simp_all
    next
      case False
      with ab have ne: "ys' \<noteq> []" by (cases "ys' = []") simp_all
      with False ab have "stringify_elems xs @ CHR '']'' # r = stringify_elems ys' @ CHR '']'' # s"
        by simp
      moreover have "\<And>z. z \<in> set xs \<Longrightarrow> unambiguous z"
        by (rule Cons.prems(1)) simp
      ultimately show ?thesis by (rule Cons.IH [rotated])
    qed
    with xy Cons show ?thesis by simp
  qed
qed

lemma quote_not_close: "quote k @ r \<noteq> CHR ''}'' # s"
  by (simp add: quote_def)

lemma props_inj:
  assumes "\<And>k v. (k, v) \<in> set ps \<Longrightarrow> unambiguous v"
    and "stringify_props ps @ CHR ''}'' # r = stringify_props qs @ CHR ''}'' # s"
  shows "reparse_props ps = reparse_props qs \<and> r = s"
  using assms
proof (induction ps arbitrary: qs)
  case Nil
  show ?case
  proof (cases qs)
    case Nil
    with Nil.prems(2) show ?thesis by simp
  next
    case (Cons q qs')
    obtain k v where q: "q = (k, v)" by (cases q)
    from Nil.prems(2) have "quote k @ (CHR '':'' # stringify v @
        (if qs' = [] then [] else CHR '','' # stringify_props qs') @ CHR ''}'' # s) = CHR ''}'' # r"
      unfolding Cons q props_Cons by simp
    with quote_not_close show ?thesis by blast
  qed
next
  case (Cons p ps)
  obtain k v where p: "p = (k, v)" by (cases p)
  show ?case
  proof (cases qs)
    case Nil
    from Cons.prems(2) have "quote k @ (CHR '':'' # stringify v @
        (if ps = [] then [] else CHR '','' # stringify_props ps) @ CHR ''}'' # r) = CHR ''}'' # s"
      unfolding Nil p props_Cons by simp
    with quote_not_close show ?thesis by blast
  next
    case (Cons q qs')
    obtain k' v' where q: "q = (k', v')" by (cases q)
    let ?A = "(if ps = [] then [] else CHR '','' # stringify_props ps) @ CHR ''}'' # r"
    let ?B = "(if qs' = [] then [] else CHR '','' # stringify_props qs') @ CHR ''}'' # s"
    from Cons.prems(2)
    have "quote k @ (CHR '':'' # stringify v @ ?A) = quote k' @ (CHR '':'' # stringify v' @ ?B)"
      unfolding Cons p q props_Cons by simp
    from quote_inj [OF this] have kk: "k = k'" and eq: "stringify v @ ?A = stringify v' @ ?B"
      by simp_all
    have dA: "delim ?A" and dB: "delim ?B" by (simp_all add: delim_marks)
    have uv: "unambiguous v" by (rule Cons.prems(1) [of k]) (simp add: p)
    from unambiguousD [OF uv eq dA dB] have vv: "reparse v = reparse v'" and ab: "?A = ?B"
      by blast+
    have "reparse_props ps = reparse_props qs' \<and> r = s"
    proof (cases "ps = []")
      case True
      with ab show ?thesis by (cases "qs' = []") simp_all
    next
      case False
      with ab have ne: "qs' \<noteq> []" by (cases "qs' = []") simp_all
      with False ab
      have "stringify_props ps @ CHR ''}'' # r = stringify_props qs' @ CHR ''}'' # s"
        by simp
      moreover have "unambiguous v" if "(k, v) \<in> set ps" for k v
        using Cons.prems(1) [of k v] that by simp
      ultimately show ?thesis by (rule Cons.IH [rotated])
    qed
    with kk vv p q Cons show ?thesis by simp
  qed
qed

lemma null_unambiguous:
  assumes "tag v = 0"
  shows "unambiguous v"
  unfolding unambiguous_def
proof (intro allI impI)
  fix w r s
  assume eq: "stringify v @ r = stringify w @ s"
  from stringify_tag [OF eq] assms have "tag w = 0" by simp
  from tag_null [OF assms] tag_null [OF this] eq show "reparse v = reparse w \<and> r = s"
    by simp
qed

lemma number_unambiguous:
  assumes "tag v = 2"
  shows "unambiguous v"
  unfolding unambiguous_def
proof (intro allI impI)
  fix w r s
  assume eq: "stringify v @ r = stringify w @ s" and d: "delim r" "delim s"
  from stringify_tag [OF eq] assms have tw: "tag w = 2" by simp
  from tag_number [OF assms] obtain n
    where n: "stringify v = show_int n" "reparse v = JNum (Integer n)" by blast
  from tag_number [OF tw] obtain m
    where m: "stringify w = show_int m" "reparse w = JNum (Integer m)" by blast
  from eq n m have "show_int n @ r = show_int m @ s" by simp
  from num_split [OF show_int_numChars show_int_numChars d this]
  have "show_int n = show_int m" "r = s" by simp_all
  with n m show "reparse v = reparse w \<and> r = s" by (auto dest: show_int_inj)
qed

lemma stringify_unambiguous: "unambiguous v"
proof (induction v)
  case JNull
  show ?case by (rule null_unambiguous) simp
next
  case (JBool b)
  show ?case
    unfolding unambiguous_def
  proof (intro allI impI)
    fix w r s
    assume eq: "stringify (JBool b) @ r = stringify w @ s"
    from stringify_tag [OF eq] have "tag w = 1" by simp
    from tag_bool [OF this] obtain c where w: "w = JBool c" by blast
    with eq show "reparse (JBool b) = reparse w \<and> r = s" by (cases b; cases c) simp_all
  qed
next
  case (JNum x)
  show ?case
    by (cases x) (simp_all add: null_unambiguous number_unambiguous)
next
  case (JStr x)
  show ?case
    unfolding unambiguous_def
  proof (intro allI impI)
    fix w r s
    assume eq: "stringify (JStr x) @ r = stringify w @ s"
    from stringify_tag [OF eq] have "tag w = 3" by simp
    from tag_string [OF this] obtain y where w: "w = JStr y" by blast
    with eq have "quote x @ r = quote y @ s" by simp
    from quote_inj [OF this] w show "reparse (JStr x) = reparse w \<and> r = s" by simp
  qed
next
  case (JArr xs)
  show ?case
    unfolding unambiguous_def
  proof (intro allI impI)
    fix w r s
    assume eq: "stringify (JArr xs) @ r = stringify w @ s"
    from stringify_tag [OF eq] have "tag w = 4" by simp
    from tag_array [OF this] obtain ys where w: "w = JArr ys" by blast
    with eq have "stringify_elems xs @ CHR '']'' # r = stringify_elems ys @ CHR '']'' # s"
      by simp
    from elems_inj [OF JArr this] w show "reparse (JArr xs) = reparse w \<and> r = s" by simp
  qed
next
  case (JObj ps)
  show ?case
    unfolding unambiguous_def
  proof (intro allI impI)
    fix w r s
    assume eq: "stringify (JObj ps) @ r = stringify w @ s"
    from stringify_tag [OF eq] have "tag w = 5" by simp
    from tag_object [OF this] obtain qs where w: "w = JObj qs" by blast
    with eq have e: "stringify_props ps @ CHR ''}'' # r = stringify_props qs @ CHR ''}'' # s"
      by simp
    have "unambiguous v" if "(k, v) \<in> set ps" for k v
      using JObj [OF that] by simp
    from props_inj [OF this e] w show "reparse (JObj ps) = reparse w \<and> r = s" by simp
  qed
qed

text \<open>
  Two values have the same serialization exactly when they are read back from it as
  the same value: when they differ at most in a \<^verbatim>\<open>-0\<close> for a \<^verbatim>\<open>0\<close> and in an infinity
  for a \<^verbatim>\<open>null\<close>.
\<close>

lemma stringify_eq_iff: "stringify v = stringify w \<longleftrightarrow> reparse v = reparse w"
proof
  assume "stringify v = stringify w"
  with unambiguousD [OF stringify_unambiguous, of v "[]" w "[]"]
  show "reparse v = reparse w" by (simp add: delim_def)
next
  assume "reparse v = reparse w"
  then have "stringify (reparse v) = stringify (reparse w)" by simp
  then show "stringify v = stringify w" by (simp only: stringify_reparse)
qed

subsection \<open>An altered backup file\<close>

lemma listBackups_includes:
  assumes idx: "readIndex fs = Inr md" and e: "e \<in> set (backups md)"
  shows "\<exists>vs. listBackups d cfg fs = (Inr vs, fs)
     \<and> (\<exists>v\<in>set vs. view_name v = name e \<and> view_timestamp v = timestamp e
                      \<and> view_reason v = reason e)"
proof -
  from idx have ens: "ensureBackupDirectory cfg fs = fs"
    by (auto simp: readIndex_lookup intro: ensure_present)
  let ?vs = "views d 0 (sortBackups (backups md))"
  have l: "listBackups d cfg fs = (Inr ?vs, fs)"
    using listBackups_views [of cfg fs md d] idx by (simp add: ens)
  have "(name e, timestamp e, reason e) \<in>
      set (map (\<lambda>b. (name b, timestamp b, reason b)) (sortBackups (backups md)))"
    using e by (auto simp: sortBackups_set)
  then have "(name e, timestamp e, reason e) \<in>
      set (map (\<lambda>v. (view_name v, view_timestamp v, view_reason v)) ?vs)"
    by (simp only: views_labels)
  then have "\<exists>v\<in>set ?vs. view_name v = name e \<and> view_timestamp v = timestamp e
                      \<and> view_reason v = reason e"
    by auto
  with l show ?thesis by blast
qed

text \<open>
  Claim C3, as amended. Take a backup file that decodes, whose recorded checksum is the
  digest of the payload \<open>fl\<close> and whose payload has been altered to \<open>fl'\<close>. When the
  digest of the serialization of \<open>fl'\<close> is not that of \<open>fl\<close>, \<open>getBackupFlows\<close> fails
  with the checksum mismatch. When \<open>fl'\<close> has the serialization of \<open>fl\<close>, the alteration
  is not detected and \<open>getBackupFlows\<close> returns the altered payload. In both cases
  \<open>listBackups\<close> on the same archive succeeds and the entry of that backup is in the
  list: the list is made from the index alone.
\<close>

theorem altered_snapshot_detection:
  assumes stored: "lookup fs (backupFileName n) = Some (BackupFile \<lparr>metadata = m, flows = fl'\<rparr>)"
    and recorded: "checksum m = checksumOf pf fl"
    and idx: "readIndex fs = Inr md"
    and listed: "e \<in> set (backups md)" "name e = n"
  shows "(sha256hex pf (stringify fl') \<noteq> sha256hex pf (stringify fl) \<longrightarrow>
            getBackupFlows pf cfg n fs = (Inl (Corrupted ChecksumMismatch), fs))
    \<and> (stringify fl' = stringify fl \<longrightarrow>
            getBackupFlows pf cfg n fs = (Inr \<lparr>metadata = m, flows = fl'\<rparr>, fs))
    \<and> (\<exists>vs. listBackups d cfg fs = (Inr vs, fs)
         \<and> (\<exists>v\<in>set vs. view_name v = n \<and> view_timestamp v = timestamp e
                          \<and> view_reason v = reason e))"
proof -
  from idx have ens: "ensureBackupDirectory cfg fs = fs"
    by (auto simp: readIndex_lookup intro: ensure_present)
  have fetch: "getBackupFlows pf cfg n fs =
      (if sha256hex pf (stringify fl') \<noteq> sha256hex pf (stringify fl)
       then Inl (Corrupted ChecksumMismatch) else Inr \<lparr>metadata = m, flows = fl'\<rparr>, fs)"
    using getBackupFlows_stored [OF stored, of pf cfg] recorded
    by (simp add: ens checksumOf_def)
  from fetch listBackups_includes [OF idx listed(1), of d cfg] listed(2) show ?thesis
    by simp
qed

lemma timerArchive_file:
  "lookup (timerArchive fl) (backupFileName ''timer'') =
     Some (BackupFile \<lparr>metadata = timerMetadata, flows = fl\<rparr>)"
  by (simp add: lookup_def timerArchive_def backupFileName_def metadataFile_def)

lemma timerArchive_index: "readIndex (timerArchive fl) = Inr timerIndex"
  by (simp add: readIndex_def lookup_def timerArchive_def)

theorem altered_snapshot_detection_witness:
  "lookup tamperedArchive (backupFileName ''daily'') =
      Some (BackupFile \<lparr>metadata = dailyMetadata, flows = JArr [hd tabElems]\<rparr>)
   \<and> checksum dailyMetadata = checksumOf examplePlatform tabFlows
   \<and> sha256hex examplePlatform (stringify (JArr [hd tabElems])) \<noteq>
       sha256hex examplePlatform (stringify tabFlows)
   \<and> readIndex tamperedArchive = Inr dailyIndex
   \<and> entryOf dailyMetadata \<in> set (backups dailyIndex)
   \<and> name (entryOf dailyMetadata) = ''daily''
   \<and> getBackupFlows examplePlatform exampleConfig ''daily'' tamperedArchive =
       (Inl (Corrupted ChecksumMismatch), tamperedArchive)
   \<and> isl (fst (listBackups None exampleConfig tamperedArchive)) = False
   \<and> lookup (timerArchive negZeroFlows) (backupFileName ''timer'') =
       Some (BackupFile \<lparr>metadata = timerMetadata, flows = negZeroFlows\<rparr>)
   \<and> checksum timerMetadata = checksumOf examplePlatform timerFlows
   \<and> stringify negZeroFlows = stringify timerFlows
   \<and> readIndex (timerArchive negZeroFlows) = Inr timerIndex
   \<and> entryOf timerMetadata \<in> set (backups timerIndex)
   \<and> name (entryOf timerMetadata) = ''timer''
   \<and> getBackupFlows examplePlatform exampleConfig ''timer'' (timerArchive negZeroFlows) =
       (Inr \<lparr>metadata = timerMetadata, flows = negZeroFlows\<rparr>, timerArchive negZeroFlows)
   \<and> isl (fst (listBackups None exampleConfig (timerArchive negZeroFlows))) = False"
proof -
  have stored: "lookup tamperedArchive (backupFileName ''daily'') =
      Some (BackupFile \<lparr>metadata = dailyMetadata, flows = JArr [hd tabElems]\<rparr>)"
    by (simp add: lookup_def tamperedArchive_def backupFileName_def metadataFile_def)
  have recorded: "checksum dailyMetadata = checksumOf examplePlatform tabFlows"
    by (simp add: dailyMetadata_def)
  have differs: "sha256hex examplePlatform (stringify (JArr [hd tabElems])) \<noteq>
       sha256hex examplePlatform (stringify tabFlows)"
    by (simp add: examplePlatform_def tabFlows_def tabElems_def)
  have idx: "readIndex tamperedArchive = Inr dailyIndex"
    by (simp add: readIndex_def lookup_def tamperedArchive_def)
  have listed: "entryOf dailyMetadata \<in> set (backups dailyIndex)"
    "name (entryOf dailyMetadata) = ''daily''"
    by (simp_all add: dailyIndex_def entryOf_def dailyMetadata_def)
  from altered_snapshot_detection [OF stored recorded idx listed,
      where cfg = exampleConfig and d = None] differs
  have detected: "getBackupFlows examplePlatform exampleConfig ''daily'' tamperedArchive =
       (Inl (Corrupted ChecksumMismatch), tamperedArchive)"
    and list1: "isl (fst (listBackups None exampleConfig tamperedArchive)) = False"
    by auto
  have recorded': "checksum timerMetadata = checksumOf examplePlatform timerFlows"
    by (simp add: timerMetadata_def)
  have same: "stringify negZeroFlows = stringify timerFlows"
    by (simp add: negZeroFlows_def timerFlows_def timerNode_def show_int_zero)
  have listed': "entryOf timerMetadata \<in> set (backups timerIndex)"
    "name (entryOf timerMetadata) = ''timer''"
    by (simp_all add: timerIndex_def entryOf_def timerMetadata_def)
  from altered_snapshot_detection [OF timerArchive_file [of negZeroFlows] recorded'
      timerArchive_index [of negZeroFlows] listed', where cfg = exampleConfig and d = None] same
  have missed: "getBackupFlows examplePlatform exampleConfig ''timer''
        (timerArchive negZeroFlows) =
       (Inr \<lparr>metadata = timerMetadata, flows = negZeroFlows\<rparr>, timerArchive negZeroFlows)"
    and list2: "isl (fst (listBackups None exampleConfig (timerArchive negZeroFlows))) = False"
    by auto
  from stored recorded differs idx listed detected list1 timerArchive_file [of negZeroFlows]
    recorded' same timerArchive_index [of negZeroFlows] listed' missed list2
  show ?thesis by (intro conjI)
qed

subsection \<open>The first backup\<close>

lemma noDirectory_index:
  "readIndex (ensureBackupDirectory exampleConfig noDirectory) = Inr (initialMetadata exampleConfig)"
proof -
  have "lookup noDirectory metadataFile = None"
    by (simp add: lookup_def noDirectory_def)
  then show ?thesis
    by (simp add: readIndex_lookup lookup_ensure)
qed

lemma name_daily: "createBackupName (Some ''daily'') ts = Inr ''daily''"
proof -
  have "toLowerCase ''daily'' = ''daily''" by code_simp
  then show ?thesis
    by (simp add: createBackupName_def matchesNamePattern_def nameChar_def reservedNames_def)
qed

lemma reparse_tabFlows: "reparse tabFlows = tabFlows"
  by (simp add: tabFlows_def tabElems_def)

lemma first_backup:
  "createBackup examplePlatform exampleConfig (Inr tabFlows) 1793704332123 (Some ''daily'') None
     noDirectory = (Inr dailyMetadata, dailyArchive)"
proof -
  have m: "newMetadata ''daily'' 1793704332123 None
      \<lparr>checksum = checksumOf examplePlatform tabFlows, flowsCount = 1, nodesCount = 1,
       size' = length (stringify tabFlows)\<rparr> = dailyMetadata"
    by (simp add: newMetadata_def dailyMetadata_def reasonOrDefault_def)
  have fresh: "\<not> list_ex (\<lambda>b. name b = ''daily'') (backups (initialMetadata exampleConfig))"
    by (simp add: initialMetadata_def)
  have i: "initialMetadata exampleConfig\<lparr>backups := [entryOf dailyMetadata]\<rparr> = dailyIndex"
    by (simp add: initialMetadata_def exampleConfig_def dailyIndex_def)
  show ?thesis
    unfolding createBackup_completes [OF refl name_daily example_analysis noDirectory_index fresh] m
      reparse_tabFlows
    by (simp add: autoCleanupStep_def initialMetadata_def exampleConfig_def i [unfolded initialMetadata_def exampleConfig_def, simplified])
      (auto simp: ensureBackupDirectory_def mkdir_def noDirectory_def lookup_def writeFile_def
        dailyArchive_def backupFileName_def metadataFile_def fun_eq_iff Let_def)
qed

lemma timer_analysis:
  "analyzeFlows pf timerFlows =
     Inr \<lparr>checksum = checksumOf pf timerFlows, flowsCount = 0, nodesCount = 1,
          size' = length (stringify timerFlows)\<rparr>"
  unfolding timerFlows_def
  by (subst analyzeFlows_array)
    (simp_all add: timerNode_def spec_flowsCount_def typeField_def truthyNode_def)

lemma name_timer: "createBackupName (Some ''timer'') ts = Inr ''timer''"
proof -
  have "toLowerCase ''timer'' = ''timer''" by code_simp
  then show ?thesis
    by (simp add: createBackupName_def matchesNamePattern_def nameChar_def reservedNames_def)
qed

lemma reparse_timerFlows: "reparse timerFlows = timerFlows"
  by (simp add: timerFlows_def timerNode_def)

lemma timer_backup:
  "createBackup examplePlatform exampleConfig (Inr timerFlows) 1793704332123 (Some ''timer'') None
     noDirectory = (Inr timerMetadata, timerArchive timerFlows)"
proof -
  have m: "newMetadata ''timer'' 1793704332123 None
      \<lparr>checksum = checksumOf examplePlatform timerFlows, flowsCount = 0, nodesCount = 1,
       size' = length (stringify timerFlows)\<rparr> = timerMetadata"
    by (simp add: newMetadata_def timerMetadata_def reasonOrDefault_def)
  have fresh: "\<not> list_ex (\<lambda>b. name b = ''timer'') (backups (initialMetadata exampleConfig))"
    by (simp add: initialMetadata_def)
  have i: "initialMetadata exampleConfig\<lparr>backups := [entryOf timerMetadata]\<rparr> = timerIndex"
    by (simp add: initialMetadata_def exampleConfig_def timerIndex_def)
  show ?thesis
    unfolding createBackup_completes [OF refl name_timer timer_analysis noDirectory_index fresh] m
      reparse_timerFlows
    by (simp add: autoCleanupStep_def initialMetadata_def exampleConfig_def i [unfolded initialMetadata_def exampleConfig_def, simplified])
      (auto simp: ensureBackupDirectory_def mkdir_def noDirectory_def lookup_def writeFile_def
        timerArchive_def backupFileName_def metadataFile_def fun_eq_iff Let_def)
qed

subsection \<open>An alteration that is not detected\<close>

text \<open>
  A backup of \<open>timerFlows\<close> is created and fetched. Then the \<^verbatim>\<open>null\<close> of the payload
  in the backup file is overwritten with \<^verbatim>\<open>1e999\<close>: the file decodes to another
  payload, with \<^verbatim>\<open>Infinity\<close> for the \<^verbatim>\<open>null\<close>, whose serialization is that of the
  payload that was backed up. The digest of the example has no collisions, and
  \<open>getBackupFlows\<close> returns the altered payload.
\<close>

theorem undetected_alteration_counterexample:
  "createBackup examplePlatform exampleConfig (Inr timerFlows) 1793704332123 (Some ''timer'') None
     noDirectory = (Inr timerMetadata, timerArchive timerFlows)
   \<and> getBackupFlows examplePlatform exampleConfig ''timer'' (timerArchive timerFlows) =
       (Inr \<lparr>metadata = timerMetadata, flows = timerFlows\<rparr>, timerArchive timerFlows)
   \<and> overflowFlows \<noteq> timerFlows
   \<and> lookup (timerArchive overflowFlows) (backupFileName ''timer'') =
       Some (BackupFile \<lparr>metadata = timerMetadata, flows = overflowFlows\<rparr>)
   \<and> checksum timerMetadata = checksumOf examplePlatform timerFlows
   \<and> inj (sha256hex examplePlatform)
   \<and> getBackupFlows examplePlatform exampleConfig ''timer'' (timerArchive overflowFlows) =
       (Inr \<lparr>metadata = timerMetadata, flows = overflowFlows\<rparr>, timerArchive overflowFlows)"
proof -
  have ens: "ensureBackupDirectory exampleConfig (timerArchive fl) = timerArchive fl" for fl
  proof -
    have "lookup (timerArchive fl) metadataFile \<noteq> None"
      by (simp add: lookup_def timerArchive_def)
    then show ?thesis
      by (auto intro: ensure_present)
  qed
  have "getBackupFlows examplePlatform exampleConfig ''timer'' (timerArchive timerFlows) =
       (Inr \<lparr>metadata = timerMetadata, flows = timerFlows\<rparr>, timerArchive timerFlows)"
    by (simp add: getBackupFlows_def ens timerArchive_file timerMetadata_def)
  moreover have "overflowFlows \<noteq> timerFlows"
    by (simp add: overflowFlows_def timerFlows_def timerNode_def)
  moreover have "checksum timerMetadata = checksumOf examplePlatform timerFlows"
    by (simp add: timerMetadata_def)
  moreover have "inj (sha256hex examplePlatform)"
    by (simp add: examplePlatform_def)
  moreover have "getBackupFlows examplePlatform exampleConfig ''timer''
        (timerArchive overflowFlows) =
       (Inr \<lparr>metadata = timerMetadata, flows = overflowFlows\<rparr>, timerArchive overflowFlows)"
    by (simp add: getBackupFlows_def ens timerArchive_file timerMetadata_def checksumOf_def
        overflowFlows_def timerFlows_def timerNode_def)
  ultimately show ?thesis
    using timer_backup timerArchive_file [of overflowFlows] by (intro conjI)
qed

subsection \<open>An empty name\<close>

lemma empty_name_as_absent:
  "createBackupName (Some []) ts = createBackupName None ts"
  "createBackup pf cfg fetched now (Some []) r fs = createBackup pf cfg fetched now None r fs"
proof -
  show n: "createBackupName (Some []) ts = createBackupName None ts" for ts
    by (simp add: createBackupName_def)
  show "createBackup pf cfg fetched now (Some []) r fs = createBackup pf cfg fetched now None r fs"
    unfolding createBackup_def n ..
qed

text \<open>
  An empty name is not rejected, although it does not match the pattern of names: the
  name is generated and the backup is created.
\<close>

theorem empty_name_counterexample:
  "\<not> matchesNamePattern []
   \<and> createBackupName (Some []) (toISOString 1793704332123) = Inr ''backup_20261103_111212''
   \<and> map_sum id name
        (fst (createBackup examplePlatform exampleConfig (Inr tabFlows) 1793704332123 (Some [])
                None noDirectory)) = Inr ''backup_20261103_111212''"
proof -
  have n: "createBackupName (Some []) (toISOString 1793704332123) = Inr ''backup_20261103_111212''"
    by (simp add: createBackupName_def generatedName_def iso_example)
  have fresh: "\<not> list_ex (\<lambda>b. name b = ''backup_20261103_111212'')
      (backups (initialMetadata exampleConfig))"
    by (simp add: initialMetadata_def)
  show ?thesis
    unfolding createBackup_completes [OF refl n example_analysis noDirectory_index fresh]
    by (simp add: n matchesNamePattern_def newMetadata_def)
qed

subsection \<open>A generated name beyond the year 9999\<close>

lemma pad6: "pad 6 n = [digit (n div 10 div 10 div 10 div 10 div 10),
    digit (n div 10 div 10 div 10 div 10), digit (n div 10 div 10 div 10),
    digit (n div 10 div 10), digit (n div 10), digit n]"
proof -
  have "pad (Suc (Suc (Suc (Suc (Suc (Suc 0)))))) n = [digit (n div 10 div 10 div 10 div 10 div 10),
    digit (n div 10 div 10 div 10 div 10), digit (n div 10 div 10 div 10),
    digit (n div 10 div 10), digit (n div 10), digit n]"
    by simp
  moreover have "Suc (Suc (Suc (Suc (Suc (Suc 0))))) = 6" by simp
  ultimately show ?thesis by (simp only:)
qed

lemma civil_10000: "civil_from_days (253402300800000 div msPerDay) = (10000, 1, 1)"
  by code_simp

lemma rest_10000: "253402300800000 mod msPerDay = 0"
  by (simp add: msPerDay_def)

lemma iso_year_10000: "toISOString 253402300800000 = ''+010000-01-01T00:00:00.000Z''"
proof -
  have ys: "yearString 10000 = ''+010000''"
    unfolding yearString_def pad6 by (simp add: digit_def)
  have p2: "pad 2 (Suc 0) = ''01''" "pad 2 0 = ''00''"
    unfolding pad2 by (simp_all add: digit_def)
  have p3: "pad 3 0 = ''000''"
    by (simp add: numeral_3_eq_3 digit_def)
  show ?thesis
    unfolding toISOString_def civil_10000 rest_10000 by (simp add: ys p2 p3)
qed

text \<open>
  In the year 10000 the ISO text has a sign and six digits of year, and the generated
  name does not match the pattern of names.
\<close>

theorem generated_name_counterexample:
  "yearFromTime 253402300800000 = 10000
   \<and> createBackupName None (toISOString 253402300800000) = Inr ''backup_+0100000101_000''
   \<and> \<not> matchesNamePattern ''backup_+0100000101_000''"
proof -
  have "yearFromTime 253402300800000 = 10000"
    by (simp add: yearFromTime_def civil_10000)
  moreover have "generatedName ''+010000-01-01T00:00:00.000Z'' = ''backup_+0100000101_000''"
    by code_simp
  then have "createBackupName None (toISOString 253402300800000) =
      Inr ''backup_+0100000101_000''"
    by (simp add: iso_year_10000 createBackupName_def)
  moreover have "\<not> matchesNamePattern ''backup_+0100000101_000''"
    by code_simp
  ultimately show ?thesis by (intro conjI)
qed

end
